theory Spec2Isabelle
  imports Main "HOL-Library.Word"
begin

section \<open>Tokens, locations and the two token sources\<close>

text \<open>
  The development follows \<^verbatim>\<open>RewriteMacros.cpp\<close>. A token carries what the file reads
  from it: its kind, its identifier info, its location, its length, its two flags and (for
  preprocessed tokens) its spelling. An \<^verbatim>\<open>IdentifierInfo*\<close> is interned, one object per
  name, so the pointer is modelled by the name it stands for and the null pointer by
  \<open>None\<close>. A location is stored as the source manager resolves it: whether the
  instantiation location lies in the main file, and its offset in its file. Offsets and
  lengths are \<^verbatim>\<open>unsigned\<close>, 32-bit words that wrap around. The index into the vector of
  raw tokens only grows under a bounds check, so it is a natural number.
\<close>

datatype tok_kind = tok_eof | tok_comment | tok_identifier | tok_hash | tok_other nat

record srcloc =
  isFromMainFile :: bool
  getFileOffset :: "32 word"

record token =
  getKind :: tok_kind
  getIdentifierInfo :: "string option"
  getLocation :: srcloc
  getLength :: "32 word"
  isAtStartOfLine :: bool
  hasLeadingSpace :: bool
  getSpelling :: string

datatype fault = OverranEof | OutOfBounds | NullIdentifierInfo

datatype edit = InsertTextAfter "32 word" string | InsertTextBefore "32 word" string

fun edit_offset :: "edit \<Rightarrow> 32 word" where
  "edit_offset (InsertTextAfter off txt) = off"
| "edit_offset (InsertTextBefore off txt) = off"

text \<open>
  The input of one run: the raw tokens of the main file, and the preprocessor's token
  stream, a list of tokens followed by a terminal token that every later call returns again.
\<close>

record input =
  RawTokens :: "token list"
  PPTokens :: "token list"
  PPEof :: token

text \<open>The locals of \<^verbatim>\<open>RewriteMacrosInInput\<close>, the number of tokens pulled from the
  preprocessor, and the edits issued to the rewrite buffer, in the order of the calls.\<close>

record state =
  CurRawTok :: nat
  RawTok :: token
  PPTok :: token
  PPCur :: nat
  RB :: "edit list"

section \<open>The functions of the file\<close>

definition isSameToken :: "token \<Rightarrow> token \<Rightarrow> bool" where
  "isSameToken RawTok' PPTok' =
     (if getKind PPTok' = getKind RawTok' \<and>
         getIdentifierInfo PPTok' = getIdentifierInfo RawTok' then True
      else if getIdentifierInfo PPTok' \<noteq> None \<and>
         getIdentifierInfo PPTok' = getIdentifierInfo RawTok' then True
      else False)"

text \<open>
  \<^verbatim>\<open>GetNextRawTok\<close>: the assertion is the fault \<open>OverranEof\<close>; a read of the
  vector past its end, which the assertion does not exclude once a comment is stepped over,
  is the fault \<open>OutOfBounds\<close>.
\<close>

definition GetNextRawTok :: "token list \<Rightarrow> nat \<Rightarrow> bool \<Rightarrow> fault + (token \<times> nat)" where
  "GetNextRawTok Toks CurTok ReturnComment =
     (if \<not> CurTok < length Toks then Inl OverranEof
      else
        let CurTok1 = (if \<not> ReturnComment \<and> getKind (Toks ! CurTok) = tok_comment
                       then CurTok + 1 else CurTok)
        in if CurTok1 < length Toks then Inr (Toks ! CurTok1, CurTok1 + 1)
           else Inl OutOfBounds)"

text \<open>\<^verbatim>\<open>PP.Lex\<close>: the next token of the stream; past the listed tokens, the terminal one.\<close>

definition Lex :: "input \<Rightarrow> nat \<Rightarrow> token \<times> nat" where
  "Lex I n = (if n < length (PPTokens I) then PPTokens I ! n else PPEof I, Suc n)"

text \<open>Lines 129 to 141: the edits for a \<^verbatim>\<open>#warning\<close> or \<^verbatim>\<open>#pragma mark\<close> line.\<close>

definition directive_edits :: "token list \<Rightarrow> nat \<Rightarrow> token \<Rightarrow> fault + edit list" where
  "directive_edits Toks Cur HashTok =
     (if \<not> Cur < length Toks then Inl OutOfBounds
      else if getKind (Toks ! Cur) = tok_identifier then
        (case getIdentifierInfo (Toks ! Cur) of
           None \<Rightarrow> Inl NullIdentifierInfo
         | Some name \<Rightarrow>
             if name = ''warning'' then
               Inr [InsertTextAfter (getFileOffset (getLocation HashTok)) ''//'']
             else if name = ''pragma'' then
               (if \<not> Cur + 1 < length Toks then Inl OutOfBounds
                else if getKind (Toks ! (Cur + 1)) = tok_identifier then
                  (case getIdentifierInfo (Toks ! (Cur + 1)) of
                     None \<Rightarrow> Inl NullIdentifierInfo
                   | Some name2 \<Rightarrow>
                       if name2 = ''mark'' then
                         Inr [InsertTextAfter (getFileOffset (getLocation HashTok)) ''//'']
                       else Inr [])
                else Inr [])
             else Inr [])
      else Inr [])"

text \<open>Lines 146 and 147: skip to the next token that starts a line, or to end of file.\<close>

function skip_line :: "token list \<Rightarrow> token \<Rightarrow> nat \<Rightarrow> fault + (token \<times> nat)" where
  "skip_line Toks T Cur =
     (if \<not> isAtStartOfLine T \<and> getKind T \<noteq> tok_eof then
        (case GetNextRawTok Toks Cur False of
           Inl e \<Rightarrow> Inl e
         | Inr (T1, Cur1) \<Rightarrow> skip_line Toks T1 Cur1)
      else Inr (T, Cur))"
  by pat_completeness auto
termination
  by (relation "measure (\<lambda>(Toks, T, Cur). length Toks - Cur)")
     (auto simp: GetNextRawTok_def Let_def split: if_splits)

declare skip_line.simps [simp del]

text \<open>Lines 172 to 185, the loop of a deletion run; it returns \<^verbatim>\<open>EndPos\<close> and the raw
  cursor it stops at.\<close>

function del_loop ::
  "token list \<Rightarrow> token \<Rightarrow> 32 word \<Rightarrow> token \<Rightarrow> 32 word \<Rightarrow> nat \<Rightarrow> fault + (32 word \<times> token \<times> nat)"
where
  "del_loop Toks PPT PPOffs T RawOffs Cur =
     (let EndPos = RawOffs + getLength T in
      case GetNextRawTok Toks Cur True of
        Inl e \<Rightarrow> Inl e
      | Inr (T1, Cur1) \<Rightarrow>
          let RawOffs1 = getFileOffset (getLocation T1) in
          if getKind T1 = tok_comment then
            (case GetNextRawTok Toks Cur1 False of
               Inl e \<Rightarrow> Inl e
             | Inr (T2, Cur2) \<Rightarrow> Inr (EndPos, T2, Cur2))
          else if RawOffs1 \<le> PPOffs \<and> \<not> isAtStartOfLine T1 \<and>
                  (PPOffs \<noteq> RawOffs1 \<or> \<not> isSameToken T1 PPT)
          then del_loop Toks PPT PPOffs T1 RawOffs1 Cur1
          else Inr (EndPos, T1, Cur1))"
  by pat_completeness auto
termination
  by (relation "measure (\<lambda>(Toks, PPT, PPOffs, T, RawOffs, Cur). length Toks - Cur)")
     (auto simp: GetNextRawTok_def Let_def split: if_splits)

declare del_loop.simps [simp del]

text \<open>Lines 196 to 201, the loop of an insertion run. Nothing bounds it but the stream:
  it has no value where the preprocessor's tokens stay below the raw offset for ever.\<close>

partial_function (option) ins_loop ::
  "input \<Rightarrow> 32 word \<Rightarrow> string \<Rightarrow> token \<Rightarrow> 32 word \<Rightarrow> nat \<Rightarrow> (string \<times> token \<times> nat) option"
where
  "ins_loop I RawOffs Expansion PPT PPOffs n =
     (if PPOffs < RawOffs then
        ins_loop I RawOffs (Expansion @ CHR '' '' # getSpelling PPT)
          (fst (Lex I n)) (getFileOffset (getLocation (fst (Lex I n)))) (snd (Lex I n))
      else Some (Expansion, PPT, n))"

declare ins_loop.simps [code]

text \<open>Lines 117 to 120: a preprocessed token that is not from the main file is dropped.\<close>

definition foreign_step :: "input \<Rightarrow> state \<Rightarrow> state" where
  "foreign_step I s = s\<lparr>PPTok := fst (Lex I (PPCur s)), PPCur := snd (Lex I (PPCur s))\<rparr>"

text \<open>Lines 126 to 149: a preprocessor directive in the raw file.\<close>

definition directive_step :: "input \<Rightarrow> state \<Rightarrow> fault + state" where
  "directive_step I s =
     (case directive_edits (RawTokens I) (CurRawTok s) (RawTok s) of
        Inl e \<Rightarrow> Inl e
      | Inr es \<Rightarrow>
          (case GetNextRawTok (RawTokens I) (CurRawTok s) False of
             Inl e \<Rightarrow> Inl e
           | Inr (T1, Cur1) \<Rightarrow>
               (case skip_line (RawTokens I) T1 Cur1 of
                  Inl e \<Rightarrow> Inl e
                | Inr (T2, Cur2) \<Rightarrow>
                    Inr (s\<lparr>RawTok := T2, CurRawTok := Cur2, RB := RB s @ es\<rparr>))))"

text \<open>Lines 157 to 161: both tokens are the same token of the file.\<close>

definition match_step :: "input \<Rightarrow> state \<Rightarrow> fault + state" where
  "match_step I s =
     (case GetNextRawTok (RawTokens I) (CurRawTok s) False of
        Inl e \<Rightarrow> Inl e
      | Inr (T1, Cur1) \<Rightarrow>
          Inr (s\<lparr>RawTok := T1, CurRawTok := Cur1,
                 PPTok := fst (Lex I (PPCur s)), PPCur := snd (Lex I (PPCur s))\<rparr>))"

text \<open>Lines 165 to 188: a deletion run. \<^verbatim>\<open>" /*"+HasSpace\<close> with length
  \<^verbatim>\<open>2+!HasSpace\<close> is the text without its first character when the token has a
  leading space.\<close>

definition comment_opener :: "bool \<Rightarrow> string" where
  "comment_opener HasSpace = (if HasSpace then ''/*'' else '' /*'')"

definition deletion_run :: "input \<Rightarrow> state \<Rightarrow> fault + state" where
  "deletion_run I s =
     (let PPOffs = getFileOffset (getLocation (PPTok s));
          RawOffs = getFileOffset (getLocation (RawTok s));
          HasSpace = hasLeadingSpace (RawTok s);
          RB1 = RB s @ [InsertTextAfter RawOffs (comment_opener HasSpace)]
      in case del_loop (RawTokens I) (PPTok s) PPOffs (RawTok s) RawOffs (CurRawTok s) of
           Inl e \<Rightarrow> Inl e
         | Inr (EndPos, T1, Cur1) \<Rightarrow>
             Inr (s\<lparr>RawTok := T1, CurRawTok := Cur1,
                    RB := RB1 @ [InsertTextBefore EndPos ''*/'']\<rparr>))"

text \<open>Lines 194 to 203: an insertion run.\<close>

definition insertion_run :: "input \<Rightarrow> state \<Rightarrow> state option" where
  "insertion_run I s =
     (let PPOffs = getFileOffset (getLocation (PPTok s));
          RawOffs = getFileOffset (getLocation (RawTok s));
          InsertPos = PPOffs
      in case ins_loop I RawOffs [] (PPTok s) PPOffs (PPCur s) of
           None \<Rightarrow> None
         | Some (Expansion, T1, n1) \<Rightarrow>
             Some (s\<lparr>PPTok := T1, PPCur := n1,
                     RB := RB s @ [InsertTextBefore InsertPos (Expansion @ '' '')]\<rparr>))"

text \<open>One iteration of the loop of line 113. \<open>None\<close>: the iteration does not end.\<close>

definition loop_body :: "input \<Rightarrow> state \<Rightarrow> (fault + state) option" where
  "loop_body I s =
     (if \<not> isFromMainFile (getLocation (PPTok s)) then Some (Inr (foreign_step I s))
      else if getKind (RawTok s) = tok_hash \<and> isAtStartOfLine (RawTok s)
      then Some (directive_step I s)
      else
        let PPOffs = getFileOffset (getLocation (PPTok s));
            RawOffs = getFileOffset (getLocation (RawTok s))
        in if PPOffs = RawOffs \<and> isSameToken (RawTok s) (PPTok s) then Some (match_step I s)
           else if RawOffs \<le> PPOffs then Some (deletion_run I s)
           else map_option Inr (insertion_run I s))"

definition loop_cond :: "state \<Rightarrow> bool" where
  "loop_cond s = (getKind (RawTok s) \<noteq> tok_eof \<or> getKind (PPTok s) \<noteq> tok_eof)"

partial_function (option) main_loop :: "input \<Rightarrow> state \<Rightarrow> (fault + state) option" where
  "main_loop I s =
     (if loop_cond s then
        (case loop_body I s of
           None \<Rightarrow> None
         | Some (Inl e) \<Rightarrow> Some (Inl e)
         | Some (Inr s1) \<Rightarrow> main_loop I s1)
      else Some (Inr s))"

declare main_loop.simps [code]

text \<open>
  \<^verbatim>\<open>LexRawTokensFromMainFile\<close>, lines 61 to 84. The raw lexer is the list of the tokens
  it returns, one for each call, and \<^verbatim>\<open>PP.LookUpIdentifierInfo\<close> a function that gives an
  identifier its (non-null) identifier info. The loop ends with the first end-of-file token;
  a list without one is not a run of the lexer, and the result is \<open>None\<close>.
\<close>

definition setIdentifierInfo :: "(token \<Rightarrow> string) \<Rightarrow> token \<Rightarrow> token" where
  "setIdentifierInfo LookUpIdentifierInfo T =
     (if getKind T = tok_identifier \<and> getIdentifierInfo T = None
      then T\<lparr>getIdentifierInfo := Some (LookUpIdentifierInfo T)\<rparr> else T)"

fun LexRawTokensFromMainFile :: "(token \<Rightarrow> string) \<Rightarrow> token list \<Rightarrow> token list option" where
  "LexRawTokensFromMainFile LookUpIdentifierInfo [] = None"
| "LexRawTokensFromMainFile LookUpIdentifierInfo (T # Lexed) =
     (if getKind (setIdentifierInfo LookUpIdentifierInfo T) \<noteq> tok_eof
      then map_option ((#) (setIdentifierInfo LookUpIdentifierInfo T))
             (LexRawTokensFromMainFile LookUpIdentifierInfo Lexed)
      else Some [setIdentifierInfo LookUpIdentifierInfo T])"

text \<open>Lines 96 to 105: the first raw token and the first preprocessed token.\<close>

definition init_state :: "input \<Rightarrow> fault + state" where
  "init_state I =
     (case GetNextRawTok (RawTokens I) 0 False of
        Inl e \<Rightarrow> Inl e
      | Inr (T, Cur) \<Rightarrow>
          Inr \<lparr>CurRawTok = Cur, RawTok = T, PPTok = fst (Lex I 0), PPCur = snd (Lex I 0),
               RB = []\<rparr>)"

text \<open>The alignment pass of \<^verbatim>\<open>RewriteMacrosInInput\<close>, up to line 204: the edits it
  has issued when the loop is left, or the fault that stopped it.\<close>

definition RewriteMacrosInInput :: "input \<Rightarrow> (fault + edit list) option" where
  "RewriteMacrosInInput I =
     (case init_state I of
        Inl e \<Rightarrow> Some (Inl e)
      | Inr s0 \<Rightarrow> map_option (map_sum id RB) (main_loop I s0))"

section \<open>Notions used to state the properties\<close>

text \<open>Where a token ends: its offset plus its length, as line 173 computes it.\<close>

definition token_end :: "token \<Rightarrow> 32 word" where
  "token_end t = getFileOffset (getLocation t) + getLength t"

text \<open>The loop condition of lines 178 to 185, for one raw token against the preprocessed
  token of the run: a deletion run goes on over such a token.\<close>

definition deletable :: "token \<Rightarrow> token \<Rightarrow> bool" where
  "deletable PPT t =
     (getKind t \<noteq> tok_comment \<and>
      getFileOffset (getLocation t) \<le> getFileOffset (getLocation PPT) \<and>
      \<not> isAtStartOfLine t \<and>
      (getFileOffset (getLocation PPT) \<noteq> getFileOffset (getLocation t) \<or> \<not> isSameToken t PPT))"

text \<open>
  What \<^verbatim>\<open>LexRawTokensFromMainFile\<close> gives: the vector ends with its only end-of-file
  token (the loop of lines 73 to 83 stops at the first one), and every identifier has its
  identifier info (lines 79 and 80).
\<close>

definition lexed_ok :: "token list \<Rightarrow> bool" where
  "lexed_ok Toks =
     (Toks \<noteq> [] \<and> getKind (last Toks) = tok_eof \<and>
      (\<forall>t \<in> set (butlast Toks). getKind t \<noteq> tok_eof) \<and>
      (\<forall>t \<in> set Toks. getKind t = tok_identifier \<longrightarrow> getIdentifierInfo t \<noteq> None))"

text \<open>
  What the raw lexer gives besides: the end-of-file token has no identifier info and lies at
  the end of the file, and no token starts behind it.
\<close>

definition raw_ok :: "token list \<Rightarrow> bool" where
  "raw_ok Toks =
     (lexed_ok Toks \<and> getIdentifierInfo (last Toks) = None \<and>
      (\<forall>t \<in> set (butlast Toks).
          getFileOffset (getLocation t) \<le> getFileOffset (getLocation (last Toks))))"

text \<open>Between two iterations \<^verbatim>\<open>RawTok\<close> is the token before the raw cursor.\<close>

definition cursor_ok :: "input \<Rightarrow> state \<Rightarrow> bool" where
  "cursor_ok I s =
     (0 < CurRawTok s \<and> CurRawTok s \<le> length (RawTokens I) \<and>
      RawTok s = RawTokens I ! (CurRawTok s - 1))"

text \<open>Raw tokens in the order of the file, none reaching into the next one.\<close>

fun laid_out :: "token list \<Rightarrow> bool" where
  "laid_out (a # b # ts) =
     (unat (getFileOffset (getLocation a)) + unat (getLength a)
        \<le> unat (getFileOffset (getLocation b)) \<and> laid_out (b # ts))"
| "laid_out ts = True"

text \<open>
  What the preprocessor gives: its terminal token is an end-of-file token of the main file,
  without identifier info, at the offset of the raw end-of-file token, that is at the end of
  the main file; no token before it is an end-of-file token, and those of the main file lie
  strictly before the end of the file.
\<close>

definition pp_ok :: "input \<Rightarrow> bool" where
  "pp_ok I =
     (getKind (PPEof I) = tok_eof \<and> getIdentifierInfo (PPEof I) = None \<and>
      isFromMainFile (getLocation (PPEof I)) \<and>
      getFileOffset (getLocation (PPEof I)) = getFileOffset (getLocation (last (RawTokens I))) \<and>
      (\<forall>t \<in> set (PPTokens I). getKind t \<noteq> tok_eof \<and>
          (isFromMainFile (getLocation t) \<longrightarrow>
             getFileOffset (getLocation t) < getFileOffset (getLocation (last (RawTokens I))))))"

text \<open>Both token sources as the lexer and the preprocessor give them.\<close>

definition well_formed :: "input \<Rightarrow> bool" where
  "well_formed I = (raw_ok (RawTokens I) \<and> pp_ok I)"

text \<open>Between two iterations, both current tokens are the last ones fetched.\<close>

definition state_ok :: "input \<Rightarrow> state \<Rightarrow> bool" where
  "state_ok I s = (cursor_ok I s \<and> 0 < PPCur s \<and> PPTok s = fst (Lex I (PPCur s - 1)))"

text \<open>What is left of both streams: every iteration makes it smaller.\<close>

definition remaining :: "input \<Rightarrow> state \<Rightarrow> nat" where
  "remaining I s = (length (RawTokens I) - CurRawTok s) + (Suc (length (PPTokens I)) - PPCur s)"

text \<open>
  The edits made at raw tokens: the \<^verbatim>\<open>//\<close> of a directive line and the opener and
  the closer of a deletion run. The text of an insertion run ends with a space, so it is
  never the closer.
\<close>

definition from_raw_side :: "edit \<Rightarrow> bool" where
  "from_raw_side e =
     (case e of InsertTextAfter off txt \<Rightarrow> True | InsertTextBefore off txt \<Rightarrow> txt = ''*/'')"

definition raw_side_offsets :: "edit list \<Rightarrow> 32 word list" where
  "raw_side_offsets es = map edit_offset (filter from_raw_side es)"

text \<open>The offsets of these edits grow, and they stay at or before the current raw token.\<close>

definition mono_inv :: "state \<Rightarrow> bool" where
  "mono_inv s =
     (sorted (raw_side_offsets (RB s)) \<and>
      (\<forall>x \<in> set (raw_side_offsets (RB s)). x \<le> getFileOffset (getLocation (RawTok s))))"

text \<open>
  A directive line, as the flags of the raw tokens show it: it begins with a \<^verbatim>\<open>#\<close>
  that starts a line and goes on over the tokens behind it that neither start a line nor are
  the end-of-file token, comments as well. It ends before the next token that starts a line,
  of whatever kind, or before end of file; \<open>line_end\<close> is the index of that token.
\<close>

definition is_directive :: "token \<Rightarrow> bool" where
  "is_directive t = (getKind t = tok_hash \<and> isAtStartOfLine t)"

definition inline_tok :: "token \<Rightarrow> bool" where
  "inline_tok t = (\<not> isAtStartOfLine t \<and> getKind t \<noteq> tok_eof)"

definition line_end :: "token list \<Rightarrow> nat \<Rightarrow> nat" where
  "line_end Toks i = Suc i + length (takeWhile inline_tok (drop (Suc i) Toks))"

text \<open>An offset lies in the directive line that begins at index \<open>i\<close>: at or behind the
  offset of its \<^verbatim>\<open>#\<close>, and before the token that the next line begins with.\<close>

definition in_line :: "token list \<Rightarrow> nat \<Rightarrow> 32 word \<Rightarrow> bool" where
  "in_line Toks i off =
     (getFileOffset (getLocation (Toks ! i)) \<le> off \<and>
      off < getFileOffset (getLocation (Toks ! line_end Toks i)))"

text \<open>
  The test of lines 129 to 137 on the raw tokens behind a \<^verbatim>\<open>#\<close>: the next one is
  the identifier \<^verbatim>\<open>warning\<close>, or it is the identifier \<^verbatim>\<open>pragma\<close> and the one
  behind it the identifier \<^verbatim>\<open>mark\<close>. The lines on which these tokens stand are not
  looked at.
\<close>

definition named :: "string \<Rightarrow> token \<Rightarrow> bool" where
  "named name t = (getKind t = tok_identifier \<and> getIdentifierInfo t = Some name)"

fun commented_out :: "token list \<Rightarrow> bool" where
  "commented_out (a # b # ts) = (named ''warning'' a \<or> (named ''pragma'' a \<and> named ''mark'' b))"
| "commented_out [a] = named ''warning'' a"
| "commented_out [] = False"

text \<open>
  Raw tokens as the characters of the file give them: in the order of the file, none
  reaching into the next one, none but the end-of-file token empty, and a token that starts a
  line separated from the token before it by the line break at least.
\<close>

fun lines_laid_out :: "token list \<Rightarrow> bool" where
  "lines_laid_out (a # b # ts) =
     (unat (getFileOffset (getLocation a)) + unat (getLength a)
        \<le> unat (getFileOffset (getLocation b)) \<and>
      0 < unat (getLength a) \<and>
      (isAtStartOfLine b \<longrightarrow>
         unat (getFileOffset (getLocation a)) + unat (getLength a)
           < unat (getFileOffset (getLocation b))) \<and>
      lines_laid_out (b # ts))"
| "lines_laid_out ts = True"

text \<open>
  The preprocessor carries out the directives and gives none of their tokens: no token that
  it gives for the main file lies in a directive line.
\<close>

definition pp_outside_directives :: "input \<Rightarrow> bool" where
  "pp_outside_directives I =
     (\<forall>t \<in> set (PPTokens I). isFromMainFile (getLocation t) \<longrightarrow>
        (\<forall>i \<in> set [0..<length (RawTokens I)]. is_directive (RawTokens I ! i) \<longrightarrow>
           \<not> in_line (RawTokens I) i (getFileOffset (getLocation t))))"

text \<open>The edit that lines 129 to 141 issue for the directive line that begins at index
  \<open>i\<close>, if any.\<close>

definition directive_edit :: "token list \<Rightarrow> nat \<Rightarrow> edit list" where
  "directive_edit Toks i =
     (if commented_out (drop (Suc i) Toks)
      then [InsertTextAfter (getFileOffset (getLocation (Toks ! i))) ''//''] else [])"

text \<open>
  Between two iterations: the raw cursor is outside the directive lines it has gone over, and
  the edits issued so far that lie in a directive line are the edit of lines 129 to 141 for
  the lines gone over, and none for the lines still to come.
\<close>

definition dir_inv :: "input \<Rightarrow> state \<Rightarrow> bool" where
  "dir_inv I s =
     ((\<forall>i. i < CurRawTok s - 1 \<and> is_directive (RawTokens I ! i) \<longrightarrow>
          line_end (RawTokens I) i \<le> CurRawTok s - 1) \<and>
      (\<forall>i. i < length (RawTokens I) \<and> is_directive (RawTokens I ! i) \<longrightarrow>
          filter (\<lambda>e. in_line (RawTokens I) i (edit_offset e)) (RB s) =
            (if i < CurRawTok s - 1 then directive_edit (RawTokens I) i else [])))"


function code_tokens :: "token list \<Rightarrow> token list" where
  "code_tokens [] = []"
| "code_tokens (t # ts) =
     (if is_directive t then code_tokens (dropWhile inline_tok ts)
      else if getKind t = tok_comment then code_tokens ts
      else t # code_tokens ts)"
  by pat_completeness auto
termination
  by (relation "measure length") (auto simp: le_imp_less_Suc length_dropWhile_le)

declare code_tokens.simps(2) [simp del]

definition same_place :: "token \<Rightarrow> token \<Rightarrow> bool" where
  "same_place r p =
     (getFileOffset (getLocation p) = getFileOffset (getLocation r) \<and> isSameToken r p)"

definition no_macros :: "input \<Rightarrow> bool" where
  "no_macros I =
     list_all2 same_place
       (code_tokens (RawTokens I))
       (filter (\<lambda>t. isFromMainFile (getLocation t)) (PPTokens I @ [PPEof I]))"

text \<open>The test of lines 129 to 137 succeeds behind no \<^verbatim>\<open>#\<close> that starts a line.\<close>

fun never_commented_out :: "token list \<Rightarrow> bool" where
  "never_commented_out [] = True"
| "never_commented_out (t # ts) =
     (\<not> (is_directive t \<and> commented_out ts) \<and> never_commented_out ts)"

text \<open>No comment comes right behind another comment.\<close>

fun no_adjacent_comments :: "token list \<Rightarrow> bool" where
  "no_adjacent_comments (a # b # ts) =
     (\<not> (getKind a = tok_comment \<and> getKind b = tok_comment) \<and> no_adjacent_comments (b # ts))"
| "no_adjacent_comments ts = True"

text \<open>A comment that starts the line behind a directive line has that line to itself: the
  token behind it starts a line, or is the end-of-file token.\<close>

fun lone_comment_after_directive :: "token list \<Rightarrow> bool" where
  "lone_comment_after_directive [] = True"
| "lone_comment_after_directive (t # ts) =
     ((is_directive t \<longrightarrow>
         (case dropWhile inline_tok ts of
            c # u # us \<Rightarrow> getKind c = tok_comment \<longrightarrow> \<not> inline_tok u
          | _ \<Rightarrow> True)) \<and>
      lone_comment_after_directive ts)"


text \<open>An insertion run goes on over the preprocessed tokens below the raw offset; the
  text it collects is a space and the spelling, for each of them.\<close>

definition below :: "32 word \<Rightarrow> token \<Rightarrow> bool" where
  "below RawOffs t = (getFileOffset (getLocation t) < RawOffs)"

definition expansion_text :: "token list \<Rightarrow> string" where
  "expansion_text ts = concat (map (\<lambda>t. CHR '' '' # getSpelling t) ts)"

section \<open>Example inputs\<close>

text \<open>A token of the main file, with the length of its spelling.\<close>

definition mk_token ::
  "tok_kind \<Rightarrow> string option \<Rightarrow> string \<Rightarrow> 32 word \<Rightarrow> bool \<Rightarrow> bool \<Rightarrow> token" where
  "mk_token k ii txt off sol sp =
     \<lparr>getKind = k, getIdentifierInfo = ii,
      getLocation = \<lparr>isFromMainFile = True, getFileOffset = off\<rparr>,
      getLength = of_nat (length txt), isAtStartOfLine = sol, hasLeadingSpace = sp,
      getSpelling = txt\<rparr>"

definition ident_token :: "string \<Rightarrow> 32 word \<Rightarrow> bool \<Rightarrow> bool \<Rightarrow> token" where
  "ident_token txt off sol sp = mk_token tok_identifier (Some txt) txt off sol sp"

definition eof_token :: "32 word \<Rightarrow> token" where
  "eof_token off = mk_token tok_eof None [] off False False"

text \<open>The file \<^verbatim>\<open>int y = SQ(3+1);\<close> with \<^verbatim>\<open>SQ(x)\<close> defined as
  \<^verbatim>\<open>((x)*(x))\<close>: the preprocessor knows \<^verbatim>\<open>int\<close> as a keyword (kind 7), and
  every token of the expansion is instantiated at offset 8, where \<^verbatim>\<open>SQ\<close> stands.\<close>

definition sq_expansion :: "token list" where
  "sq_expansion =
     map (\<lambda>(k, txt). mk_token (tok_other k) None txt 8 False False)
       [(2, ''(''), (2, ''(''), (3, ''3''), (4, ''+''), (3, ''1''), (5, '')''), (9, ''*''),
        (2, ''(''), (3, ''3''), (4, ''+''), (3, ''1''), (5, '')''), (5, '')'')]"

definition sq_input :: input where
  "sq_input =
     \<lparr>RawTokens =
        [ident_token ''int'' 0 True False, ident_token ''y'' 4 False True,
         mk_token (tok_other 1) None ''='' 6 False True, ident_token ''SQ'' 8 False True,
         mk_token (tok_other 2) None ''('' 10 False False,
         mk_token (tok_other 3) None ''3'' 11 False False,
         mk_token (tok_other 4) None ''+'' 12 False False,
         mk_token (tok_other 3) None ''1'' 13 False False,
         mk_token (tok_other 5) None '')'' 14 False False,
         mk_token (tok_other 6) None '';'' 15 False False, eof_token 16],
      PPTokens =
        [mk_token (tok_other 7) (Some ''int'') ''int'' 0 True False,
         ident_token ''y'' 4 False True, mk_token (tok_other 1) None ''='' 6 False True]
        @ sq_expansion @ [mk_token (tok_other 6) None '';'' 15 False False],
      PPEof = eof_token 16\<rparr>"

text \<open>The file \<^verbatim>\<open>EMPTY /*c*/ int z;\<close> with \<^verbatim>\<open>EMPTY\<close> defined as nothing.\<close>

definition empty_macro_input :: input where
  "empty_macro_input =
     \<lparr>RawTokens =
        [ident_token ''EMPTY'' 0 True False,
         mk_token tok_comment None ''/*c*/'' 6 False True,
         ident_token ''int'' 12 False True, ident_token ''z'' 16 False True,
         mk_token (tok_other 6) None '';'' 17 False False, eof_token 18],
      PPTokens =
        [mk_token (tok_other 7) (Some ''int'') ''int'' 12 False True,
         ident_token ''z'' 16 False True, mk_token (tok_other 6) None '';'' 17 False False],
      PPEof = eof_token 18\<rparr>"


text \<open>The three lines \<^verbatim>\<open>// a\<close>, \<^verbatim>\<open>// b\<close> and \<^verbatim>\<open>int x;\<close>: no macro at all.\<close>

definition two_comments_input :: input where
  "two_comments_input =
     \<lparr>RawTokens =
        [mk_token tok_comment None ''// a'' 0 True False,
         mk_token tok_comment None ''// b'' 5 True False,
         ident_token ''int'' 10 True False, ident_token ''x'' 14 False True,
         mk_token (tok_other 6) None '';'' 15 False False, eof_token 17],
      PPTokens =
        [mk_token (tok_other 7) (Some ''int'') ''int'' 10 True False,
         ident_token ''x'' 14 False True, mk_token (tok_other 6) None '';'' 15 False False],
      PPEof = eof_token 17\<rparr>"


text \<open>The three lines \<^verbatim>\<open>#include <a.h>\<close>, \<^verbatim>\<open>#warning "old"\<close> and
  \<^verbatim>\<open>int x;\<close>; the header gives one token.\<close>

definition directives_input :: input where
  "directives_input =
     \<lparr>RawTokens =
        [mk_token tok_hash None ''#'' 0 True False, ident_token ''include'' 1 False False,
         mk_token (tok_other 10) None ''<a.h>'' 9 False True,
         mk_token tok_hash None ''#'' 15 True False, ident_token ''warning'' 16 False False,
         mk_token (tok_other 8) None ''\"old\"'' 24 False True,
         ident_token ''int'' 30 True False, ident_token ''x'' 34 False True,
         mk_token (tok_other 6) None '';'' 35 False False, eof_token 37],
      PPTokens =
        [(ident_token ''size_t'' 0 True False)
           \<lparr>getLocation := \<lparr>isFromMainFile = False, getFileOffset = 0\<rparr>\<rparr>,
         mk_token (tok_other 7) (Some ''int'') ''int'' 30 True False,
         ident_token ''x'' 34 False True, mk_token (tok_other 6) None '';'' 35 False False],
      PPEof = eof_token 37\<rparr>"

text \<open>The two lines \<^verbatim>\<open>#include <a.h>\<close> and \<^verbatim>\<open>/* c */ int x;\<close>; the header
  gives one token.\<close>

definition comment_after_directive_input :: input where
  "comment_after_directive_input =
     \<lparr>RawTokens =
        [mk_token tok_hash None ''#'' 0 True False, ident_token ''include'' 1 False False,
         mk_token (tok_other 10) None ''<a.h>'' 9 False True,
         mk_token tok_comment None ''/* c */'' 15 True False,
         ident_token ''int'' 23 False True, ident_token ''x'' 27 False True,
         mk_token (tok_other 6) None '';'' 28 False False, eof_token 30],
      PPTokens =
        [(ident_token ''size_t'' 0 True False)
           \<lparr>getLocation := \<lparr>isFromMainFile = False, getFileOffset = 0\<rparr>\<rparr>,
         mk_token (tok_other 7) (Some ''int'') ''int'' 23 False True,
         ident_token ''x'' 27 False True, mk_token (tok_other 6) None '';'' 28 False False],
      PPEof = eof_token 30\<rparr>"

text \<open>The two lines \<^verbatim>\<open>#\<close> and \<^verbatim>\<open>warning = 1;\<close>.\<close>

definition lone_hash_input :: input where
  "lone_hash_input =
     \<lparr>RawTokens =
        [mk_token tok_hash None ''#'' 0 True False, ident_token ''warning'' 2 True False,
         mk_token (tok_other 1) None ''='' 10 False True,
         mk_token (tok_other 3) None ''1'' 12 False True,
         mk_token (tok_other 6) None '';'' 13 False False, eof_token 15],
      PPTokens =
        [ident_token ''warning'' 2 True False, mk_token (tok_other 1) None ''='' 10 False True,
         mk_token (tok_other 3) None ''1'' 12 False True,
         mk_token (tok_other 6) None '';'' 13 False False],
      PPEof = eof_token 15\<rparr>"

text \<open>The state in which the iteration after the first \<open>n\<close> ones of a run begins.\<close>

fun run_iterations :: "nat \<Rightarrow> input \<Rightarrow> state \<Rightarrow> (fault + state) option" where
  "run_iterations 0 I s = Some (Inr s)"
| "run_iterations (Suc n) I s =
     (case loop_body I s of
        None \<Rightarrow> None
      | Some (Inl e) \<Rightarrow> Some (Inl e)
      | Some (Inr s1) \<Rightarrow> run_iterations n I s1)"

definition state_after :: "nat \<Rightarrow> input \<Rightarrow> state" where
  "state_after n I = projr (the (run_iterations n I (projr (init_state I))))"

section \<open>Lemmas on the raw cursor and the inner loops\<close>

lemma GetNextRawTok_advances:
  "GetNextRawTok Toks c b = Inr (t, c') \<Longrightarrow> c < c' \<and> c < length Toks \<and> c' \<le> length Toks"
  by (auto simp: GetNextRawTok_def Let_def split: if_splits)

lemma lexed_Suc_lt:
  assumes "lexed_ok Toks" "i < length Toks" "getKind (Toks ! i) \<noteq> tok_eof"
  shows "Suc i < length Toks"
proof (rule ccontr)
  assume "\<not> Suc i < length Toks"
  with assms(2) have "i = length Toks - 1" by simp
  with assms(1,2) have "Toks ! i = last Toks"
    by (simp add: lexed_ok_def last_conv_nth)
  with assms(1,3) show False by (simp add: lexed_ok_def)
qed

lemma lexed_ident:
  "lexed_ok Toks \<Longrightarrow> i < length Toks \<Longrightarrow> getKind (Toks ! i) = tok_identifier \<Longrightarrow>
   \<exists>name. getIdentifierInfo (Toks ! i) = Some name"
  by (auto simp: lexed_ok_def)

lemma GetNextRawTok_lexed:
  assumes "lexed_ok Toks" "c < length Toks"
  shows "\<exists>c'. GetNextRawTok Toks c b = Inr (Toks ! (c' - 1), c') \<and> c < c' \<and> c' \<le> length Toks"
proof (cases "\<not> b \<and> getKind (Toks ! c) = tok_comment")
  case True
  then have "Suc c < length Toks" using lexed_Suc_lt[OF assms] by simp
  with True assms(2) show ?thesis
    by (intro exI[of _ "c + 2"]) (simp add: GetNextRawTok_def)
next
  case False
  with assms(2) show ?thesis
    by (intro exI[of _ "c + 1"]) (auto simp: GetNextRawTok_def)
qed

lemma skip_line_lexed:
  "lexed_ok Toks \<Longrightarrow> 0 < c \<Longrightarrow> c \<le> length Toks \<Longrightarrow> T = Toks ! (c - 1) \<Longrightarrow>
         \<exists>c'. skip_line Toks T c = Inr (Toks ! (c' - 1), c') \<and> c \<le> c' \<and> c' \<le> length Toks"
proof (induction Toks T c rule: skip_line.induct)
  case (1 Toks T Cur)
  show ?case
  proof (cases "\<not> isAtStartOfLine T \<and> getKind T \<noteq> tok_eof")
    case False
    then show ?thesis using "1.prems" by (subst skip_line.simps) auto
  next
    case True
    with "1.prems" have lt: "Cur < length Toks"
      using lexed_Suc_lt[of Toks "Cur - 1"] by simp
    from GetNextRawTok_lexed[OF "1.prems"(1) lt, of False]
    obtain c1 where g: "GetNextRawTok Toks Cur False = Inr (Toks ! (c1 - 1), c1)"
      and c1: "Cur < c1" "c1 \<le> length Toks" by blast
    from "1.IH"[OF True g refl "1.prems"(1) _ _ refl] c1
    obtain c' where "skip_line Toks (Toks ! (c1 - 1)) c1 = Inr (Toks ! (c' - 1), c')"
      "c1 \<le> c'" "c' \<le> length Toks" by auto
    with True g c1 show ?thesis
      by (subst skip_line.simps) auto
  qed
qed

lemma directive_edits_lexed:
  assumes "lexed_ok Toks" "0 < c" "c \<le> length Toks" "getKind (Toks ! (c - 1)) = tok_hash"
  shows "directive_edits Toks c H =
     Inr (if (getKind (Toks ! c) = tok_identifier \<and> getIdentifierInfo (Toks ! c) = Some ''warning'') \<or>
             (getKind (Toks ! c) = tok_identifier \<and> getIdentifierInfo (Toks ! c) = Some ''pragma'' \<and>
              getKind (Toks ! (c + 1)) = tok_identifier \<and>
              getIdentifierInfo (Toks ! (c + 1)) = Some ''mark'')
          then [InsertTextAfter (getFileOffset (getLocation H)) ''//''] else [])"
proof -
  from assms have lt: "c < length Toks"
    using lexed_Suc_lt[of Toks "c - 1"] by simp
  show ?thesis
  proof (cases "getKind (Toks ! c) = tok_identifier")
    case False
    with lt show ?thesis by (simp add: directive_edits_def)
  next
    case True
    then obtain name where n: "getIdentifierInfo (Toks ! c) = Some name"
      using lexed_ident[OF assms(1) lt] by blast
    from True lt assms(1) have lt2: "c + 1 < length Toks"
      using lexed_Suc_lt[of Toks c] by simp
    show ?thesis
    proof (cases "getKind (Toks ! (c + 1)) = tok_identifier")
      case False
      with True n lt lt2 show ?thesis by (simp add: directive_edits_def)
    next
      case id2: True
      then obtain name2 where "getIdentifierInfo (Toks ! (c + 1)) = Some name2"
        using lexed_ident[OF assms(1) lt2] by blast
      with True n lt lt2 id2 show ?thesis by (simp add: directive_edits_def)
    qed
  qed
qed

lemma LexRawTokensFromMainFile_lexed_ok:
  "LexRawTokensFromMainFile LookUp Lexed = Some Toks \<Longrightarrow> lexed_ok Toks"
proof (induction Lexed arbitrary: Toks)
  case Nil
  then show ?case by simp
next
  case (Cons T Lexed)
  let ?T = "setIdentifierInfo LookUp T"
  have id: "getKind ?T = tok_identifier \<longrightarrow> getIdentifierInfo ?T \<noteq> None"
    by (simp add: setIdentifierInfo_def)
  show ?case
  proof (cases "getKind ?T \<noteq> tok_eof")
    case False
    with Cons.prems id show ?thesis by (auto simp: lexed_ok_def)
  next
    case True
    with Cons.prems obtain Rest where r: "LexRawTokensFromMainFile LookUp Lexed = Some Rest"
      and t: "Toks = ?T # Rest" by auto
    from Cons.IH [OF r] have "lexed_ok Rest" .
    with True id show ?thesis unfolding t by (auto simp: lexed_ok_def)
  qed
qed

lemma raw_ok_lexed: "raw_ok Toks \<Longrightarrow> lexed_ok Toks"
  by (simp add: raw_ok_def)

lemma raw_ok_Suc_lt:
  "raw_ok Toks \<Longrightarrow> i < length Toks \<Longrightarrow> getKind (Toks ! i) \<noteq> tok_eof \<Longrightarrow> Suc i < length Toks"
  by (rule lexed_Suc_lt [OF raw_ok_lexed])

lemma GetNextRawTok_ok:
  "raw_ok Toks \<Longrightarrow> c < length Toks \<Longrightarrow>
   \<exists>c'. GetNextRawTok Toks c b = Inr (Toks ! (c' - 1), c') \<and> c < c' \<and> c' \<le> length Toks"
  by (rule GetNextRawTok_lexed [OF raw_ok_lexed])

lemma skip_line_ok:
  "raw_ok Toks \<Longrightarrow> 0 < c \<Longrightarrow> c \<le> length Toks \<Longrightarrow> T = Toks ! (c - 1) \<Longrightarrow>
   \<exists>c'. skip_line Toks T c = Inr (Toks ! (c' - 1), c') \<and> c \<le> c' \<and> c' \<le> length Toks"
  by (rule skip_line_lexed [OF raw_ok_lexed])

lemma directive_edits_ok:
  "raw_ok Toks \<Longrightarrow> 0 < c \<Longrightarrow> c \<le> length Toks \<Longrightarrow> getKind (Toks ! (c - 1)) = tok_hash \<Longrightarrow>
   directive_edits Toks c H =
     Inr (if (getKind (Toks ! c) = tok_identifier \<and> getIdentifierInfo (Toks ! c) = Some ''warning'') \<or>
             (getKind (Toks ! c) = tok_identifier \<and> getIdentifierInfo (Toks ! c) = Some ''pragma'' \<and>
              getKind (Toks ! (c + 1)) = tok_identifier \<and>
              getIdentifierInfo (Toks ! (c + 1)) = Some ''mark'')
          then [InsertTextAfter (getFileOffset (getLocation H)) ''//''] else [])"
  by (rule directive_edits_lexed [OF raw_ok_lexed])

lemma GetNextRawTok_True:
  "Cur < length Toks \<Longrightarrow> GetNextRawTok Toks Cur True = Inr (Toks ! Cur, Suc Cur)"
  by (simp add: GetNextRawTok_def)

lemma del_loop_char:
  "n = length (takeWhile (deletable PPT) (drop Cur Toks)) \<Longrightarrow> Cur + n < length Toks \<Longrightarrow>
   del_loop Toks PPT (getFileOffset (getLocation PPT)) T (getFileOffset (getLocation T)) Cur =
     (if getKind (Toks ! (Cur + n)) = tok_comment then
        (case GetNextRawTok Toks (Cur + n + 1) False of
           Inl e \<Rightarrow> Inl e
         | Inr (T2, c2) \<Rightarrow> Inr (token_end (if n = 0 then T else Toks ! (Cur + n - 1)), T2, c2))
      else Inr (token_end (if n = 0 then T else Toks ! (Cur + n - 1)), Toks ! (Cur + n),
                Cur + n + 1))"
proof (induction n arbitrary: Cur T)
  case 0
  then have lt: "Cur < length Toks" by simp
  then have d: "drop Cur Toks = Toks ! Cur # drop (Suc Cur) Toks"
    by (simp add: Cons_nth_drop_Suc)
  with 0 have nd: "\<not> deletable PPT (Toks ! Cur)"
    by (auto split: if_splits)
  show ?case
    using nd lt
    by (subst del_loop.simps)
       (auto simp: GetNextRawTok_True deletable_def token_end_def Let_def split: sum.splits)
next
  case (Suc n)
  then have lt: "Cur < length Toks" by simp
  then have d: "drop Cur Toks = Toks ! Cur # drop (Suc Cur) Toks"
    by (simp add: Cons_nth_drop_Suc)
  with Suc.prems have dl: "deletable PPT (Toks ! Cur)"
    and n: "n = length (takeWhile (deletable PPT) (drop (Suc Cur) Toks))"
    by (auto split: if_splits)
  from Suc.prems have lt2: "Suc Cur + n < length Toks" by simp
  note IH = Suc.IH[OF n lt2, of "Toks ! Cur"]
  have step: "del_loop Toks PPT (getFileOffset (getLocation PPT)) T (getFileOffset (getLocation T)) Cur
     = del_loop Toks PPT (getFileOffset (getLocation PPT)) (Toks ! Cur)
         (getFileOffset (getLocation (Toks ! Cur))) (Suc Cur)"
    using dl lt
    by (subst del_loop.simps) (auto simp: GetNextRawTok_True deletable_def Let_def)
  show ?case
    unfolding step IH by (cases n) (simp_all split: sum.splits)
qed

lemma del_loop_overrun:
  "n = length (takeWhile (deletable PPT) (drop Cur Toks)) \<Longrightarrow> \<not> Cur + n < length Toks \<Longrightarrow>
   del_loop Toks PPT (getFileOffset (getLocation PPT)) T (getFileOffset (getLocation T)) Cur =
     Inl OverranEof"
proof (induction n arbitrary: Cur T)
  case 0
  then show ?case
    by (subst del_loop.simps) (simp add: GetNextRawTok_def)
next
  case (Suc n)
  have lt: "Cur < length Toks"
  proof (rule ccontr)
    assume "\<not> Cur < length Toks"
    then have "drop Cur Toks = []" by simp
    with Suc.prems(1) show False by simp
  qed
  then have d: "drop Cur Toks = Toks ! Cur # drop (Suc Cur) Toks"
    by (simp add: Cons_nth_drop_Suc)
  with Suc.prems have dl: "deletable PPT (Toks ! Cur)"
    and n: "n = length (takeWhile (deletable PPT) (drop (Suc Cur) Toks))"
    by (auto split: if_splits)
  from Suc.prems have lt2: "\<not> Suc Cur + n < length Toks" by simp
  have step: "del_loop Toks PPT (getFileOffset (getLocation PPT)) T (getFileOffset (getLocation T)) Cur
     = del_loop Toks PPT (getFileOffset (getLocation PPT)) (Toks ! Cur)
         (getFileOffset (getLocation (Toks ! Cur))) (Suc Cur)"
    using dl lt
    by (subst del_loop.simps) (auto simp: GetNextRawTok_True deletable_def Let_def)
  show ?case unfolding step by (rule Suc.IH[OF n lt2])
qed

lemma deletion_run_char:
  assumes "cursor_ok I s" and "deletion_run I s = Inr s'"
    and "k = CurRawTok s + length (takeWhile (deletable (PPTok s)) (drop (CurRawTok s) (RawTokens I)))"
  shows "k < length (RawTokens I)"
    and "RB s' = RB s @
           [InsertTextAfter (getFileOffset (getLocation (RawTok s)))
              (comment_opener (hasLeadingSpace (RawTok s))),
            InsertTextBefore (token_end (RawTokens I ! (k - 1))) ''*/'']"
    and "PPTok s' = PPTok s" and "PPCur s' = PPCur s"
    and "getKind (RawTokens I ! k) = tok_comment \<Longrightarrow>
           GetNextRawTok (RawTokens I) (k + 1) False = Inr (RawTok s', CurRawTok s')"
    and "getKind (RawTokens I ! k) \<noteq> tok_comment \<Longrightarrow>
           RawTok s' = RawTokens I ! k \<and> CurRawTok s' = k + 1"
proof -
  let ?n = "length (takeWhile (deletable (PPTok s)) (drop (CurRawTok s) (RawTokens I)))"
  let ?dl = "del_loop (RawTokens I) (PPTok s) (getFileOffset (getLocation (PPTok s))) (RawTok s)
               (getFileOffset (getLocation (RawTok s))) (CurRawTok s)"
  from assms(2) obtain EndPos T1 c1 where dl: "?dl = Inr (EndPos, T1, c1)"
    and s': "s' = s\<lparr>RawTok := T1, CurRawTok := c1,
               RB := (RB s @ [InsertTextAfter (getFileOffset (getLocation (RawTok s)))
                               (comment_opener (hasLeadingSpace (RawTok s)))])
                     @ [InsertTextBefore EndPos ''*/'']\<rparr>"
    by (auto simp: deletion_run_def Let_def split: sum.splits)
  show lt: "k < length (RawTokens I)"
  proof (rule ccontr)
    assume "\<not> k < length (RawTokens I)"
    then have "?dl = Inl OverranEof"
      using del_loop_overrun[OF refl, of "CurRawTok s" "PPTok s" "RawTokens I" "RawTok s"] assms(3)
      by simp
    with dl show False by simp
  qed
  from assms(1) have c: "0 < CurRawTok s" "RawTok s = RawTokens I ! (CurRawTok s - 1)"
    by (simp_all add: cursor_ok_def)
  have last: "(if ?n = 0 then RawTok s else RawTokens I ! (CurRawTok s + ?n - 1)) = RawTokens I ! (k - 1)"
    using c assms(3) by simp
  note ch = del_loop_char[OF refl, of "CurRawTok s" "PPTok s" "RawTokens I" "RawTok s",
      unfolded last, folded assms(3), OF lt]
  from ch dl have E: "EndPos = token_end (RawTokens I ! (k - 1))"
    by (auto split: if_splits sum.splits)
  with s' show "RB s' = RB s @
           [InsertTextAfter (getFileOffset (getLocation (RawTok s)))
              (comment_opener (hasLeadingSpace (RawTok s))),
            InsertTextBefore (token_end (RawTokens I ! (k - 1))) ''*/'']"
    by simp
  from s' show "PPTok s' = PPTok s" "PPCur s' = PPCur s" by simp_all
  show "GetNextRawTok (RawTokens I) (k + 1) False = Inr (RawTok s', CurRawTok s')"
    if "getKind (RawTokens I ! k) = tok_comment"
    using that ch dl s' by (auto split: sum.splits)
  show "RawTok s' = RawTokens I ! k \<and> CurRawTok s' = k + 1"
    if "getKind (RawTokens I ! k) \<noteq> tok_comment"
    using that ch dl s' by auto
qed

lemma laid_out_nth:
  "laid_out Toks \<Longrightarrow> Suc i < length Toks \<Longrightarrow>
   unat (getFileOffset (getLocation (Toks ! i))) + unat (getLength (Toks ! i))
     \<le> unat (getFileOffset (getLocation (Toks ! Suc i)))"
proof (induction Toks arbitrary: i rule: laid_out.induct)
  case (1 a b ts)
  then show ?case by (cases i) simp_all
qed simp_all

lemma token_end_le:
  assumes "unat (getFileOffset (getLocation a)) + unat (getLength a) \<le> unat (b :: 32 word)"
  shows "token_end a \<le> b" and "getFileOffset (getLocation a) \<le> token_end a"
proof -
  have "unat (getFileOffset (getLocation a)) + unat (getLength a) < 2 ^ 32"
    using assms unsigned_less[of b, where ?'a = nat] by simp
  then have e: "unat (token_end a) = unat (getFileOffset (getLocation a)) + unat (getLength a)"
    unfolding token_end_def by (intro unat_add_lem [THEN iffD1]) simp
  show "token_end a \<le> b" using assms e by (simp add: word_le_nat_alt)
  show "getFileOffset (getLocation a) \<le> token_end a" using e by (simp add: word_le_nat_alt)
qed

lemma ins_loop_stop:
  "\<not> below RawOffs T \<Longrightarrow>
   ins_loop I RawOffs acc T (getFileOffset (getLocation T)) n = Some (acc, T, n)"
  by (subst ins_loop.simps) (simp add: below_def)

lemma ins_loop_step:
  "below RawOffs T \<Longrightarrow>
   ins_loop I RawOffs acc T (getFileOffset (getLocation T)) n =
   ins_loop I RawOffs (acc @ CHR '' '' # getSpelling T) (fst (Lex I n))
     (getFileOffset (getLocation (fst (Lex I n)))) (Suc n)"
  by (subst ins_loop.simps) (simp add: below_def Lex_def)

lemma ins_loop_char:
  "\<not> (\<forall>t \<in> set (drop n (PPTokens I) @ [PPEof I]). below RawOffs t) \<Longrightarrow>
   k = length (PPTokens I) - n \<Longrightarrow>
   ins_loop I RawOffs acc T (getFileOffset (getLocation T)) n =
     Some (acc @ expansion_text (takeWhile (below RawOffs) (T # drop n (PPTokens I))),
           (if below RawOffs T
            then fst (Lex I (n + length (takeWhile (below RawOffs) (drop n (PPTokens I)))))
            else T),
           n + length (takeWhile (below RawOffs) (T # drop n (PPTokens I))))"
proof (induction k arbitrary: n acc T)
  case 0
  then have d: "drop n (PPTokens I) = []" and e: "\<not> below RawOffs (PPEof I)"
    and l: "fst (Lex I n) = PPEof I"
    by (simp_all add: Lex_def)
  show ?case
  proof (cases "below RawOffs T")
    case False
    then show ?thesis by (simp add: ins_loop_stop expansion_text_def)
  next
    case True
    then show ?thesis
      using e l d by (simp add: ins_loop_step ins_loop_stop [of RawOffs "PPEof I"] expansion_text_def)
  qed
next
  case (Suc k)
  then have lt: "n < length (PPTokens I)" by simp
  then have d: "drop n (PPTokens I) = PPTokens I ! n # drop (Suc n) (PPTokens I)"
    by (simp add: Cons_nth_drop_Suc)
  from lt have l: "fst (Lex I n) = PPTokens I ! n" by (simp add: Lex_def)
  show ?case
  proof (cases "below RawOffs T")
    case False
    then show ?thesis by (simp add: ins_loop_stop expansion_text_def)
  next
    case T: True
    show ?thesis
    proof (cases "below RawOffs (PPTokens I ! n)")
      case False
      with T show ?thesis
        using l d by (simp add: ins_loop_step ins_loop_stop [of RawOffs "PPTokens I ! n"] expansion_text_def)
    next
      case True
      with Suc.prems d have ex: "\<not> (\<forall>t \<in> set (drop (Suc n) (PPTokens I) @ [PPEof I]). below RawOffs t)"
        by auto
      from Suc.prems have k: "k = length (PPTokens I) - Suc n" by simp
      show ?thesis
        using T True l d
        by (simp add: ins_loop_step Suc.IH [OF ex k] expansion_text_def)
    qed
  qed
qed

section \<open>Lemmas on one iteration and on the whole loop\<close>

lemma main_loop_rule:
  assumes "Inv s"
    and step: "\<And>s. Inv s \<Longrightarrow> loop_cond s \<Longrightarrow>
             \<exists>s'. loop_body I s = Some (Inr s') \<and> Inv s' \<and> m s' < (m s :: nat)"
  shows "\<exists>s'. main_loop I s = Some (Inr s') \<and> Inv s' \<and> \<not> loop_cond s'"
  using assms(1)
proof (induction "m s" arbitrary: s rule: less_induct)
  case less
  show ?case
  proof (cases "loop_cond s")
    case False
    with less.prems show ?thesis by (subst main_loop.simps) simp
  next
    case True
    from step [OF less.prems True] obtain s1
      where b: "loop_body I s = Some (Inr s1)" and i: "Inv s1" and m: "m s1 < m s" by blast
    from less.hyps [OF m i] obtain s' where "main_loop I s1 = Some (Inr s')" "Inv s'" "\<not> loop_cond s'"
      by blast
    with True b show ?thesis by (subst main_loop.simps) simp
  qed
qed


lemma pp_tok_cases:
  assumes "state_ok I s"
  shows "PPTok s = PPEof I \<or> (PPTok s \<in> set (PPTokens I) \<and> PPCur s \<le> length (PPTokens I))"
proof (cases "PPCur s - 1 < length (PPTokens I)")
  case True
  with assms show ?thesis by (auto simp: state_ok_def Lex_def)
next
  case False
  with assms show ?thesis by (simp add: state_ok_def Lex_def)
qed

lemma raw_ok_nth_butlast:
  assumes "Suc i < length Toks"
  shows "Toks ! i \<in> set (butlast Toks)"
proof -
  from assms have "i < length (butlast Toks)" by simp
  then have "butlast Toks ! i \<in> set (butlast Toks)" by (rule nth_mem)
  with assms show ?thesis by (simp add: nth_butlast)
qed

lemma raw_ok_nth_last:
  assumes "i < length Toks" "\<not> Suc i < length Toks"
  shows "Toks ! i = last Toks"
proof -
  from assms have "i = length Toks - 1" and "Toks \<noteq> []" by auto
  then show ?thesis by (simp add: last_conv_nth)
qed

lemma raw_ok_eof_iff:
  assumes "raw_ok Toks" "i < length Toks"
  shows "getKind (Toks ! i) = tok_eof \<longleftrightarrow> Suc i = length Toks"
proof (cases "Suc i < length Toks")
  case True
  with raw_ok_nth_butlast [OF True] assms(1) show ?thesis by (auto simp: raw_ok_def lexed_ok_def)
next
  case False
  with raw_ok_nth_last [OF assms(2) False] assms show ?thesis by (auto simp: raw_ok_def lexed_ok_def)
qed

lemma raw_tok_eof_iff:
  assumes "raw_ok (RawTokens I)" "cursor_ok I s"
  shows "getKind (RawTok s) = tok_eof \<longleftrightarrow> CurRawTok s = length (RawTokens I)"
proof -
  from assms(2) have "CurRawTok s - 1 < length (RawTokens I)"
    and "RawTok s = RawTokens I ! (CurRawTok s - 1)" and "0 < CurRawTok s"
    by (auto simp: cursor_ok_def)
  with raw_ok_eof_iff [OF assms(1), of "CurRawTok s - 1"] show ?thesis by auto
qed

lemma raw_offset_le_end:
  assumes "raw_ok Toks" "i < length Toks"
  shows "getFileOffset (getLocation (Toks ! i)) \<le> getFileOffset (getLocation (last Toks))"
proof (cases "Suc i < length Toks")
  case True
  with raw_ok_nth_butlast [OF True] assms(1) show ?thesis by (simp add: raw_ok_def lexed_ok_def)
next
  case False
  with raw_ok_nth_last [OF assms(2) False] show ?thesis by simp
qed

lemma foreign_branch:
  assumes "well_formed I" "state_ok I s" "\<not> isFromMainFile (getLocation (PPTok s))"
  shows "state_ok I (foreign_step I s) \<and> remaining I (foreign_step I s) < remaining I s \<and>
         CurRawTok (foreign_step I s) = CurRawTok s \<and> RawTok (foreign_step I s) = RawTok s \<and>
         PPCur (foreign_step I s) = Suc (PPCur s) \<and> RB (foreign_step I s) = RB s"
proof -
  from assms(1,3) have "PPTok s \<noteq> PPEof I" by (auto simp: well_formed_def pp_ok_def)
  with pp_tok_cases [OF assms(2)] have "PPCur s \<le> length (PPTokens I)" by simp
  with assms(2) show ?thesis
    by (simp add: state_ok_def cursor_ok_def foreign_step_def remaining_def Lex_def; arith)
qed

lemma directive_branch:
  assumes "raw_ok (RawTokens I)" "state_ok I s"
    and "getKind (RawTok s) = tok_hash" 
  shows "\<exists>s'. directive_step I s = Inr s' \<and> state_ok I s' \<and> CurRawTok s < CurRawTok s' \<and>
           PPCur s' = PPCur s \<and> PPTok s' = PPTok s \<and>
           (RB s' = RB s \<or>
            RB s' = RB s @ [InsertTextAfter (getFileOffset (getLocation (RawTok s))) ''//''])"
proof -
  let ?Toks = "RawTokens I" and ?c = "CurRawTok s"
  from assms(2) have c: "0 < ?c" "?c \<le> length ?Toks" "RawTok s = ?Toks ! (?c - 1)"
    by (simp_all add: state_ok_def cursor_ok_def)
  with assms(3) have h: "getKind (?Toks ! (?c - 1)) = tok_hash" by simp
  then have lt: "?c < length ?Toks"
    using raw_ok_Suc_lt[OF assms(1), of "?c - 1"] c by simp
  note de = directive_edits_ok[OF assms(1) c(1,2) h, of "RawTok s"]
  from GetNextRawTok_ok[OF assms(1) lt, of False]
  obtain c1 where g: "GetNextRawTok ?Toks ?c False = Inr (?Toks ! (c1 - 1), c1)"
    and c1: "?c < c1" "c1 \<le> length ?Toks" by blast
  from skip_line_ok[OF assms(1) _ c1(2) refl] c1
  obtain c2 where sk: "skip_line ?Toks (?Toks ! (c1 - 1)) c1 = Inr (?Toks ! (c2 - 1), c2)"
    and c2: "c1 \<le> c2" "c2 \<le> length ?Toks"
    by auto
  show ?thesis
    using assms(2) de g sk c1 c2
    by (auto simp: directive_step_def state_ok_def cursor_ok_def)
qed

lemma match_branch:
  assumes "raw_ok (RawTokens I)" "state_ok I s" "loop_cond s" "isSameToken (RawTok s) (PPTok s)"
  shows "\<exists>s'. match_step I s = Inr s' \<and> state_ok I s' \<and> CurRawTok s < CurRawTok s' \<and>
           PPCur s' = Suc (PPCur s) \<and> RB s' = RB s"
proof -
  let ?Toks = "RawTokens I" and ?c = "CurRawTok s"
  from assms(2) have co: "cursor_ok I s" by (simp add: state_ok_def)
  have ne: "getKind (RawTok s) \<noteq> tok_eof"
  proof
    assume e: "getKind (RawTok s) = tok_eof"
    with raw_tok_eof_iff [OF assms(1) co] co
    have "RawTok s = last (RawTokens I)"
      using raw_ok_nth_last [of "CurRawTok s - 1" "RawTokens I"] by (auto simp: cursor_ok_def)
    with assms(1) have "getIdentifierInfo (RawTok s) = None"
      by (simp add: raw_ok_def lexed_ok_def)
    with assms(4) e have "getKind (PPTok s) = tok_eof"
      by (auto simp: isSameToken_def split: if_splits)
    with e assms(3) show False by (simp add: loop_cond_def)
  qed
  with raw_tok_eof_iff [OF assms(1) co] co have lt: "?c < length ?Toks"
    by (simp add: cursor_ok_def)
  from GetNextRawTok_ok[OF assms(1) lt, of False]
  obtain c1 where g: "GetNextRawTok ?Toks ?c False = Inr (?Toks ! (c1 - 1), c1)"
    and c1: "?c < c1" "c1 \<le> length ?Toks" by blast
  show ?thesis
    using assms(2) g c1
    by (auto simp: match_step_def state_ok_def cursor_ok_def Lex_def)
qed


lemma takeWhile_stops:
  "xs \<noteq> [] \<Longrightarrow> \<not> P (last xs) \<Longrightarrow> length (takeWhile P xs) < length xs"
  by (induction xs) (auto split: if_splits)

lemma last_not_deletable:
  assumes "well_formed I" "state_ok I s" "isFromMainFile (getLocation (PPTok s))"
  shows "\<not> deletable (PPTok s) (last (RawTokens I))"
proof -
  from pp_tok_cases [OF assms(2)] show ?thesis
  proof
    assume "PPTok s = PPEof I"
    with assms(1) show ?thesis
      by (simp add: well_formed_def pp_ok_def raw_ok_def lexed_ok_def deletable_def isSameToken_def)
  next
    assume "PPTok s \<in> set (PPTokens I) \<and> PPCur s \<le> length (PPTokens I)"
    with assms(1,3) have
      "getFileOffset (getLocation (PPTok s)) < getFileOffset (getLocation (last (RawTokens I)))"
      by (auto simp: well_formed_def pp_ok_def)
    then show ?thesis by (auto simp: deletable_def)
  qed
qed

lemma deletion_branch:
  assumes "well_formed I" "state_ok I s" "loop_cond s"
    and "isFromMainFile (getLocation (PPTok s))"
    and "getFileOffset (getLocation (RawTok s)) \<le> getFileOffset (getLocation (PPTok s))"
  shows "\<exists>s'. deletion_run I s = Inr s' \<and> state_ok I s' \<and> CurRawTok s < CurRawTok s'"
proof -
  let ?Toks = "RawTokens I" and ?c = "CurRawTok s"
  from assms(1) have ro: "raw_ok ?Toks" by (simp add: well_formed_def)
  from assms(2) have co: "cursor_ok I s" by (simp add: state_ok_def)
  have ne: "getKind (RawTok s) \<noteq> tok_eof"
  proof
    assume e: "getKind (RawTok s) = tok_eof"
    with raw_tok_eof_iff [OF ro co] co
    have l: "RawTok s = last ?Toks"
      using raw_ok_nth_last [of "?c - 1" ?Toks] by (auto simp: cursor_ok_def)
    from e assms(3) have "getKind (PPTok s) \<noteq> tok_eof" by (simp add: loop_cond_def)
    with assms(1) have "PPTok s \<noteq> PPEof I" by (auto simp: well_formed_def pp_ok_def)
    with pp_tok_cases [OF assms(2)] assms(1,4)
    have "getFileOffset (getLocation (PPTok s)) < getFileOffset (getLocation (last ?Toks))"
      by (auto simp: well_formed_def pp_ok_def)
    with assms(5) l show False by simp
  qed
  with raw_tok_eof_iff [OF ro co] co have lt: "?c < length ?Toks"
    by (simp add: cursor_ok_def)
  let ?n = "length (takeWhile (deletable (PPTok s)) (drop ?c ?Toks))"
  from lt have "drop ?c ?Toks \<noteq> []" "last (drop ?c ?Toks) = last ?Toks" by simp_all
  with last_not_deletable [OF assms(1,2,4)] have "?n < length (drop ?c ?Toks)"
    using takeWhile_stops [of "drop ?c ?Toks" "deletable (PPTok s)"] by simp
  then have k: "?c + ?n < length ?Toks" by simp
  note ch = del_loop_char [OF refl k, of "RawTok s"]
  show ?thesis
  proof (cases "getKind (?Toks ! (?c + ?n)) = tok_comment")
    case True
    then have "Suc (?c + ?n) < length ?Toks"
      using raw_ok_Suc_lt [OF ro k] by simp
    from GetNextRawTok_ok [OF ro this, of False]
    obtain c1 where g: "GetNextRawTok ?Toks (?c + ?n + 1) False = Inr (?Toks ! (c1 - 1), c1)"
      and c1: "Suc (?c + ?n) < c1" "c1 \<le> length ?Toks" by auto
    show ?thesis
      using assms(2) ch True g c1
      by (simp add: deletion_run_def Let_def state_ok_def cursor_ok_def)
  next
    case False
    show ?thesis
      using assms(2) ch False k
      by (simp add: deletion_run_def Let_def state_ok_def cursor_ok_def)
  qed
qed

lemma insertion_branch:
  assumes "well_formed I" "state_ok I s"
    and "getFileOffset (getLocation (PPTok s)) < getFileOffset (getLocation (RawTok s))"
  shows "\<exists>s' txt. insertion_run I s = Some s' \<and> state_ok I s' \<and> PPCur s < PPCur s' \<and>
           PPCur s' \<le> Suc (length (PPTokens I)) \<and>
           CurRawTok s' = CurRawTok s \<and> RawTok s' = RawTok s \<and>
           RB s' = RB s @ [InsertTextBefore (getFileOffset (getLocation (PPTok s))) (txt @ '' '')]"
proof -
  let ?R = "getFileOffset (getLocation (RawTok s))"
  let ?p = "PPCur s"
  let ?tw = "takeWhile (below ?R) (drop ?p (PPTokens I))"
  from assms(1) have ro: "raw_ok (RawTokens I)" by (simp add: well_formed_def)
  from assms(2) have co: "cursor_ok I s" by (simp add: state_ok_def)
  then have "CurRawTok s - 1 < length (RawTokens I)" "RawTok s = RawTokens I ! (CurRawTok s - 1)"
    by (auto simp: cursor_ok_def)
  then have "?R \<le> getFileOffset (getLocation (last (RawTokens I)))"
    using raw_offset_le_end [OF ro, of "CurRawTok s - 1"] by simp
  with assms(1) have le: "?R \<le> getFileOffset (getLocation (PPEof I))"
    by (simp add: well_formed_def pp_ok_def)
  then have nb: "\<not> below ?R (PPEof I)" by (simp add: below_def)
  then have ex: "\<not> (\<forall>t \<in> set (drop ?p (PPTokens I) @ [PPEof I]). below ?R t)" by simp
  from assms(3) have bT: "below ?R (PPTok s)" by (simp add: below_def)
  from le assms(3) have "PPTok s \<noteq> PPEof I" by auto
  with pp_tok_cases [OF assms(2)] have p: "?p \<le> length (PPTokens I)" by simp
  have "length ?tw \<le> length (drop ?p (PPTokens I))" by (rule length_takeWhile_le)
  with p have b: "?p + length ?tw \<le> length (PPTokens I)" by simp
  let ?s' = "s\<lparr>PPTok := fst (Lex I (?p + length ?tw)), PPCur := ?p + Suc (length ?tw),
               RB := RB s @ [InsertTextBefore (getFileOffset (getLocation (PPTok s)))
                               (expansion_text (PPTok s # ?tw) @ '' '')]\<rparr>"
  have run: "insertion_run I s = Some ?s'"
    using bT by (simp add: insertion_run_def Let_def ins_loop_char [OF ex refl])
  have ok: "state_ok I ?s'"
    using assms(2) by (simp add: state_ok_def cursor_ok_def)
  show ?thesis
    using run ok b by (intro exI [of _ ?s'] exI [of _ "expansion_text (PPTok s # ?tw)"]) simp
qed

lemma loop_body_step:
  assumes "well_formed I" "state_ok I s" "loop_cond s"
  shows "\<exists>s'. loop_body I s = Some (Inr s') \<and> state_ok I s' \<and> remaining I s' < remaining I s"
proof -
  from assms(1) have ro: "raw_ok (RawTokens I)" by (simp add: well_formed_def)
  have dec: "remaining I s' < remaining I s"
    if "state_ok I s'" "CurRawTok s < CurRawTok s'" "PPCur s \<le> PPCur s'" for s'
    using that by (simp add: remaining_def state_ok_def cursor_ok_def; arith)
  show ?thesis
  proof (cases "isFromMainFile (getLocation (PPTok s))")
    case False
    with foreign_branch [OF assms(1,2)] show ?thesis by (simp add: loop_body_def)
  next
    case main: True
    show ?thesis
    proof (cases "getKind (RawTok s) = tok_hash \<and> isAtStartOfLine (RawTok s)")
      case True
      with directive_branch [OF ro assms(2)] obtain s' where
        "directive_step I s = Inr s'" "state_ok I s'" "CurRawTok s < CurRawTok s'"
        "PPCur s' = PPCur s" by blast
      with main True dec [of s'] show ?thesis by (simp add: loop_body_def)
    next
      case False
      then have nd: "(getKind (RawTok s) = tok_hash \<and> isAtStartOfLine (RawTok s)) = False"
        by simp
      show ?thesis
      proof (cases "getFileOffset (getLocation (PPTok s)) = getFileOffset (getLocation (RawTok s))
                    \<and> isSameToken (RawTok s) (PPTok s)")
        case True
        with match_branch [OF ro assms(2,3)] obtain s' where
          "match_step I s = Inr s'" "state_ok I s'" "CurRawTok s < CurRawTok s'"
          "PPCur s' = Suc (PPCur s)" by blast
        with main True dec [of s'] show ?thesis by (simp add: nd loop_body_def)
      next
        case False
        then have nm: "(getFileOffset (getLocation (PPTok s)) = getFileOffset (getLocation (RawTok s))
                    \<and> isSameToken (RawTok s) (PPTok s)) = False" by simp
        show ?thesis
        proof (cases "getFileOffset (getLocation (RawTok s)) \<le> getFileOffset (getLocation (PPTok s))")
          case True
          from deletion_branch [OF assms main True] obtain s' where
            d: "deletion_run I s = Inr s'" "state_ok I s'" "CurRawTok s < CurRawTok s'" by blast
          from deletion_run_char(4) [OF _ d(1) refl] assms(2) have "PPCur s' = PPCur s"
            by (simp add: state_ok_def)
          with main True d dec [of s'] show ?thesis by (simp add: nd nm loop_body_def Let_def)
        next
          case False
          then have "getFileOffset (getLocation (PPTok s)) < getFileOffset (getLocation (RawTok s))"
            by simp
          from insertion_branch [OF assms(1,2) this] obtain s' where
            i: "insertion_run I s = Some s'" "state_ok I s'" "PPCur s < PPCur s'"
               "PPCur s' \<le> Suc (length (PPTokens I))" "CurRawTok s' = CurRawTok s" by blast
          then have "remaining I s' < remaining I s"
            by (simp add: remaining_def; arith)
          with main False i show ?thesis by (simp add: nd nm loop_body_def Let_def)
        qed
      qed
    qed
  qed
qed

lemma init_state_ok:
  assumes "raw_ok (RawTokens I)"
  shows "\<exists>s0. init_state I = Inr s0 \<and> state_ok I s0 \<and> RB s0 = []"
proof -
  from assms have "0 < length (RawTokens I)" by (simp add: raw_ok_def lexed_ok_def)
  from GetNextRawTok_ok [OF assms this, of False]
  obtain c where "GetNextRawTok (RawTokens I) 0 False = Inr (RawTokens I ! (c - 1), c)"
    "0 < c" "c \<le> length (RawTokens I)" by blast
  then show ?thesis
    by (simp add: init_state_def state_ok_def cursor_ok_def Lex_def)
qed

lemma run_completes:
  assumes "well_formed I"
  shows "\<exists>s0 s'. init_state I = Inr s0 \<and> main_loop I s0 = Some (Inr s') \<and>
           state_ok I s' \<and> \<not> loop_cond s'"
proof -
  from assms have "raw_ok (RawTokens I)" by (simp add: well_formed_def)
  from init_state_ok [OF this] obtain s0 where s0: "init_state I = Inr s0" "state_ok I s0"
    by blast
  from main_loop_rule [of "state_ok I", OF s0(2) loop_body_step [OF assms]]
  obtain s' where "main_loop I s0 = Some (Inr s')" "state_ok I s'" "\<not> loop_cond s'"
    by blast
  with s0 show ?thesis by blast
qed

lemma skip_line_mono:
  "skip_line Toks T c = Inr (T', c') \<Longrightarrow> c \<le> c'"
proof (induction Toks T c rule: skip_line.induct)
  case (1 Toks T Cur)
  show ?case
  proof (cases "\<not> isAtStartOfLine T \<and> getKind T \<noteq> tok_eof")
    case False
    with "1.prems" show ?thesis by (subst (asm) skip_line.simps) auto
  next
    case True
    with "1.prems" obtain T1 c1 where g: "GetNextRawTok Toks Cur False = Inr (T1, c1)"
      and r: "skip_line Toks T1 c1 = Inr (T', c')"
      by (subst (asm) skip_line.simps) (auto split: sum.splits)
    from "1.IH" [OF True g refl r] GetNextRawTok_advances [OF g] show ?thesis by simp
  qed
qed

lemma del_loop_advances:
  "del_loop Toks PPT PPOffs T RawOffs Cur = Inr (E, T', c') \<Longrightarrow> Cur < c'"
proof (induction Toks PPT PPOffs T RawOffs Cur rule: del_loop.induct)
  case (1 Toks PPT PPOffs T RawOffs Cur)
  from "1.prems" obtain T1 c1 where g: "GetNextRawTok Toks Cur True = Inr (T1, c1)"
    by (subst (asm) del_loop.simps) (auto simp: Let_def split: sum.splits)
  note a = GetNextRawTok_advances [OF g]
  show ?case
  proof (cases "getKind T1 = tok_comment")
    case True
    with "1.prems" g obtain T2 where "GetNextRawTok Toks c1 False = Inr (T2, c')"
      by (subst (asm) del_loop.simps) (auto simp: Let_def split: sum.splits)
    from GetNextRawTok_advances [OF this] a show ?thesis by simp
  next
    case False
    show ?thesis
    proof (cases "getFileOffset (getLocation T1) \<le> PPOffs \<and> \<not> isAtStartOfLine T1 \<and>
                  (PPOffs \<noteq> getFileOffset (getLocation T1) \<or> \<not> isSameToken T1 PPT)")
      case True
      with "1.prems" g False
      have r: "del_loop Toks PPT PPOffs T1 (getFileOffset (getLocation T1)) c1 = Inr (E, T', c')"
        by (subst (asm) del_loop.simps) (auto simp: Let_def)
      from "1.IH" [OF refl g refl refl False True r] a show ?thesis by simp
    next
      case c: False
      with "1.prems" g False have "c' = c1"
        by (subst (asm) del_loop.simps) (auto simp: Let_def)
      with a show ?thesis by simp
    qed
  qed
qed

lemma ins_loop_advances:
  assumes "ins_loop I RawOffs acc T PPOffs n = Some r"
  shows "n \<le> snd (snd r) \<and> (PPOffs < RawOffs \<longrightarrow> n < snd (snd r))"
proof (rule ins_loop.raw_induct
    [where P = "\<lambda>I RawOffs acc T PPOffs n r.
                  n \<le> snd (snd r) \<and> (PPOffs < RawOffs \<longrightarrow> n < snd (snd r))", OF _ assms])
  fix f I RawOffs acc T PPOffs n r
  assume IH: "\<And>I RawOffs acc T PPOffs n r. f I RawOffs acc T PPOffs n = Some r \<Longrightarrow>
                n \<le> snd (snd r) \<and> (PPOffs < RawOffs \<longrightarrow> n < snd (snd r))"
    and eq: "(if PPOffs < RawOffs
              then f I RawOffs (acc @ CHR '' '' # getSpelling T) (fst (Lex I n))
                     (getFileOffset (getLocation (fst (Lex I n)))) (snd (Lex I n))
              else Some (acc, T, n)) = Some r"
  show "n \<le> snd (snd r) \<and> (PPOffs < RawOffs \<longrightarrow> n < snd (snd r))"
  proof (cases "PPOffs < RawOffs")
    case True
    with eq have "f I RawOffs (acc @ CHR '' '' # getSpelling T) (fst (Lex I n))
            (getFileOffset (getLocation (fst (Lex I n)))) (snd (Lex I n)) = Some r"
      by simp
    from IH [OF this] True show ?thesis by (simp add: Lex_def)
  next
    case False
    with eq show ?thesis by auto
  qed
qed

lemma loop_body_advances:
  assumes "loop_body I s = Some (Inr s')"
  shows "CurRawTok s \<le> CurRawTok s' \<and> PPCur s \<le> PPCur s' \<and>
         (CurRawTok s < CurRawTok s' \<or> PPCur s < PPCur s')"
proof (cases "isFromMainFile (getLocation (PPTok s))")
  case False
  with assms show ?thesis by (auto simp: loop_body_def foreign_step_def Lex_def)
next
  case main: True
  show ?thesis
  proof (cases "getKind (RawTok s) = tok_hash \<and> isAtStartOfLine (RawTok s)")
    case True
    with main assms have "directive_step I s = Inr s'" by (simp add: loop_body_def)
    then show ?thesis
      by (auto simp: directive_step_def split: sum.splits
               dest!: GetNextRawTok_advances skip_line_mono)
  next
    case False
    then have nd: "(getKind (RawTok s) = tok_hash \<and> isAtStartOfLine (RawTok s)) = False"
      by simp
    show ?thesis
    proof (cases "getFileOffset (getLocation (PPTok s)) = getFileOffset (getLocation (RawTok s))
                    \<and> isSameToken (RawTok s) (PPTok s)")
      case True
      with main assms have "match_step I s = Inr s'" by (simp add: nd loop_body_def)
      then show ?thesis
        by (auto simp: match_step_def Lex_def split: sum.splits dest!: GetNextRawTok_advances)
    next
      case False
      then have nm: "(getFileOffset (getLocation (PPTok s)) = getFileOffset (getLocation (RawTok s))
                    \<and> isSameToken (RawTok s) (PPTok s)) = False" by simp
      show ?thesis
      proof (cases "getFileOffset (getLocation (RawTok s)) \<le> getFileOffset (getLocation (PPTok s))")
        case True
        with main assms have "deletion_run I s = Inr s'" by (simp add: nd nm loop_body_def)
        then show ?thesis
          by (auto simp: deletion_run_def Let_def split: sum.splits dest!: del_loop_advances)
      next
        case False
        with main assms have i: "insertion_run I s = Some s'"
          by (auto simp: nd nm loop_body_def)
        from False have "getFileOffset (getLocation (PPTok s)) < getFileOffset (getLocation (RawTok s))"
          by simp
        with i show ?thesis
          by (auto simp: insertion_run_def Let_def split: option.splits dest!: ins_loop_advances)
      qed
    qed
  qed
qed

lemma main_loop_exit:
  assumes "main_loop I s = Some (Inr t)"
  shows "\<not> loop_cond t"
proof -
  have "\<forall>t. Inr t = r \<longrightarrow> \<not> loop_cond t" if "main_loop I s = Some r" for r
  proof (rule main_loop.raw_induct
      [where P = "\<lambda>I s r. \<forall>t. Inr t = r \<longrightarrow> \<not> loop_cond t", OF _ that])
    fix f I s r
    assume IH: "\<And>I s r. f I s = Some r \<Longrightarrow> \<forall>t. Inr t = r \<longrightarrow> \<not> loop_cond t"
      and eq: "(if loop_cond s
                then case loop_body I s of None \<Rightarrow> None | Some (Inl e) \<Rightarrow> Some (Inl e)
                     | Some (Inr s1) \<Rightarrow> f I s1
                else Some (Inr s)) = Some r"
    show "\<forall>t. Inr t = r \<longrightarrow> \<not> loop_cond t"
    proof (cases "loop_cond s")
      case False
      with eq show ?thesis by auto
    next
      case True
      show ?thesis
      proof (cases "loop_body I s")
        case None
        with True eq show ?thesis by simp
      next
        case (Some y)
        show ?thesis
        proof (cases y)
          case (Inl e)
          with True Some eq show ?thesis by auto
        next
          case (Inr s1)
          with True Some eq have "f I s1 = Some r" by simp
          from IH [OF this] show ?thesis .
        qed
      qed
    qed
  qed
  from this [OF assms] show ?thesis by simp
qed

lemma laid_out_mono:
  assumes "laid_out Toks" "j < length Toks"
  shows "i \<le> j \<Longrightarrow>
         getFileOffset (getLocation (Toks ! i)) \<le> getFileOffset (getLocation (Toks ! j))"
  using assms(2)
proof (induction j)
  case 0
  then show ?case by simp
next
  case (Suc j)
  show ?case
  proof (cases "i = Suc j")
    case True
    then show ?thesis by simp
  next
    case False
    with Suc.prems have "i \<le> j" "j < length Toks" by simp_all
    from Suc.IH [OF this] have a: "getFileOffset (getLocation (Toks ! i))
        \<le> getFileOffset (getLocation (Toks ! j))" .
    from laid_out_nth [OF assms(1) Suc.prems(2)]
    have "unat (getFileOffset (getLocation (Toks ! j)))
        \<le> unat (getFileOffset (getLocation (Toks ! Suc j)))" by simp
    then have "getFileOffset (getLocation (Toks ! j)) \<le> getFileOffset (getLocation (Toks ! Suc j))"
      by (simp add: word_le_nat_alt)
    with a show ?thesis by simp
  qed
qed

lemma loop_body_edit_cases:
  assumes "well_formed I" "state_ok I s" "loop_cond s" "loop_body I s = Some (Inr s')"
  shows "state_ok I s' \<and> CurRawTok s \<le> CurRawTok s' \<and>
     (RB s' = RB s \<or>
      RB s' = RB s @ [InsertTextAfter (getFileOffset (getLocation (RawTok s))) ''//''] \<or>
      (\<exists>k. RB s' = RB s @
              [InsertTextAfter (getFileOffset (getLocation (RawTok s)))
                 (comment_opener (hasLeadingSpace (RawTok s))),
               InsertTextBefore (token_end (RawTokens I ! (k - 1))) ''*/''] \<and>
            CurRawTok s \<le> k \<and> k < CurRawTok s') \<or>
      (\<exists>txt. RB s' = RB s @ [InsertTextBefore (getFileOffset (getLocation (PPTok s))) (txt @ '' '')] \<and>
            CurRawTok s' = CurRawTok s))"
proof -
  from assms(1) have ro: "raw_ok (RawTokens I)" by (simp add: well_formed_def)
  from loop_body_step [OF assms(1-3)] assms(4) have ok: "state_ok I s'" by auto
  from loop_body_advances [OF assms(4)] have adv: "CurRawTok s \<le> CurRawTok s'" by simp
  have "RB s' = RB s \<or>
      RB s' = RB s @ [InsertTextAfter (getFileOffset (getLocation (RawTok s))) ''//''] \<or>
      (\<exists>k. RB s' = RB s @
              [InsertTextAfter (getFileOffset (getLocation (RawTok s)))
                 (comment_opener (hasLeadingSpace (RawTok s))),
               InsertTextBefore (token_end (RawTokens I ! (k - 1))) ''*/''] \<and>
            CurRawTok s \<le> k \<and> k < CurRawTok s') \<or>
      (\<exists>txt. RB s' = RB s @ [InsertTextBefore (getFileOffset (getLocation (PPTok s))) (txt @ '' '')] \<and>
            CurRawTok s' = CurRawTok s)"
  proof (cases "isFromMainFile (getLocation (PPTok s))")
    case False
    with assms(4) show ?thesis by (auto simp: loop_body_def foreign_step_def)
  next
    case main: True
    show ?thesis
    proof (cases "getKind (RawTok s) = tok_hash \<and> isAtStartOfLine (RawTok s)")
      case True
      with main assms(4) have "directive_step I s = Inr s'" by (simp add: loop_body_def)
      with directive_branch [OF ro assms(2)] True show ?thesis by auto
    next
      case False
      then have nd: "(getKind (RawTok s) = tok_hash \<and> isAtStartOfLine (RawTok s)) = False"
        by simp
      show ?thesis
      proof (cases "getFileOffset (getLocation (PPTok s)) = getFileOffset (getLocation (RawTok s))
                    \<and> isSameToken (RawTok s) (PPTok s)")
        case True
        with main assms(4) have "match_step I s = Inr s'" by (simp add: nd loop_body_def)
        then show ?thesis by (auto simp: match_step_def split: sum.splits)
      next
        case False
        then have nm: "(getFileOffset (getLocation (PPTok s)) = getFileOffset (getLocation (RawTok s))
                    \<and> isSameToken (RawTok s) (PPTok s)) = False" by simp
        show ?thesis
        proof (cases "getFileOffset (getLocation (RawTok s)) \<le> getFileOffset (getLocation (PPTok s))")
          case True
          with main assms(4) have d: "deletion_run I s = Inr s'" by (simp add: nd nm loop_body_def)
          from assms(2) have co: "cursor_ok I s" by (simp add: state_ok_def)
          let ?k = "CurRawTok s + length (takeWhile (deletable (PPTok s)) (drop (CurRawTok s) (RawTokens I)))"
          note ch = deletion_run_char [OF co d refl]
          have "?k < CurRawTok s'"
          proof (cases "getKind (RawTokens I ! ?k) = tok_comment")
            case True
            from GetNextRawTok_advances [OF ch(5) [OF True]] show ?thesis by simp
          next
            case False
            from ch(6) [OF False] show ?thesis by simp
          qed
          with ch(2) have "\<exists>k. RB s' = RB s @
              [InsertTextAfter (getFileOffset (getLocation (RawTok s)))
                 (comment_opener (hasLeadingSpace (RawTok s))),
               InsertTextBefore (token_end (RawTokens I ! (k - 1))) ''*/''] \<and>
            CurRawTok s \<le> k \<and> k < CurRawTok s'"
            by (intro exI [of _ ?k]) simp
          then show ?thesis by blast
        next
          case False
          then have lt: "getFileOffset (getLocation (PPTok s)) < getFileOffset (getLocation (RawTok s))"
            by simp
          from False main assms(4) have "insertion_run I s = Some s'"
            by (auto simp: nd nm loop_body_def)
          with insertion_branch [OF assms(1,2) lt] show ?thesis by auto
        qed
      qed
    qed
  qed
  with ok adv show ?thesis by simp
qed


lemma expansion_not_closer: "txt @ '' '' \<noteq> ''*/''"
proof
  assume "txt @ '' '' = ''*/''"
  then have "last (txt @ '' '') = last ''*/''" by simp
  then show False by simp
qed

lemma mono_step:
  assumes "well_formed I" "laid_out (RawTokens I)" "state_ok I s" "loop_cond s"
    and "loop_body I s = Some (Inr s')" "mono_inv s"
  shows "mono_inv s'"
proof -
  let ?Toks = "RawTokens I"
  let ?c = "CurRawTok s" and ?c' = "CurRawTok s'"
  let ?R = "getFileOffset (getLocation (RawTok s))"
  let ?R' = "getFileOffset (getLocation (RawTok s'))"
  note ec = loop_body_edit_cases [OF assms(1,3,4,5)]
  from assms(3) have c: "0 < ?c" "RawTok s = ?Toks ! (?c - 1)"
    by (simp_all add: state_ok_def cursor_ok_def)
  from ec have c': "?c' \<le> length ?Toks" "RawTok s' = ?Toks ! (?c' - 1)" "?c \<le> ?c'"
    by (simp_all add: state_ok_def cursor_ok_def)
  have RR: "?R \<le> ?R'"
    using laid_out_mono [OF assms(2), of "?c' - 1" "?c - 1"] c c' by simp
  from assms(6) have so: "sorted (raw_side_offsets (RB s))"
    and bd: "\<And>x. x \<in> set (raw_side_offsets (RB s)) \<Longrightarrow> x \<le> ?R"
    by (simp_all add: mono_inv_def)
  from ec have "RB s' = RB s \<or>
      RB s' = RB s @ [InsertTextAfter ?R ''//''] \<or>
      (\<exists>k. RB s' = RB s @
              [InsertTextAfter ?R (comment_opener (hasLeadingSpace (RawTok s))),
               InsertTextBefore (token_end (?Toks ! (k - 1))) ''*/''] \<and>
            ?c \<le> k \<and> k < ?c') \<or>
      (\<exists>txt. RB s' = RB s @ [InsertTextBefore (getFileOffset (getLocation (PPTok s))) (txt @ '' '')] \<and>
            ?c' = ?c)" by simp
  then consider
      (same) "RB s' = RB s"
    | (directive) "RB s' = RB s @ [InsertTextAfter ?R ''//'']"
    | (deletion) k where "RB s' = RB s @
              [InsertTextAfter ?R (comment_opener (hasLeadingSpace (RawTok s))),
               InsertTextBefore (token_end (?Toks ! (k - 1))) ''*/'']" "?c \<le> k" "k < ?c'"
    | (insertion) tx where
        "RB s' = RB s @ [InsertTextBefore (getFileOffset (getLocation (PPTok s))) (tx @ '' '')]"
    by blast
  then show ?thesis
  proof cases
    case same
    with so bd RR show ?thesis by (fastforce simp: mono_inv_def)
  next
    case directive
    then have "raw_side_offsets (RB s') = raw_side_offsets (RB s) @ [?R]"
      by (simp add: raw_side_offsets_def from_raw_side_def)
    with so bd RR show ?thesis by (fastforce simp: mono_inv_def sorted_append)
  next
    case (deletion k)
    let ?E = "token_end (?Toks ! (k - 1))"
    from deletion c c' have k: "0 < k" "k < length ?Toks" by simp_all
    with laid_out_nth [OF assms(2), of "k - 1"]
    have lo: "unat (getFileOffset (getLocation (?Toks ! (k - 1)))) + unat (getLength (?Toks ! (k - 1)))
        \<le> unat (getFileOffset (getLocation (?Toks ! k)))" by simp
    have "?R \<le> getFileOffset (getLocation (?Toks ! (k - 1)))"
      using laid_out_mono [OF assms(2), of "k - 1" "?c - 1"] c k deletion(2) by simp
    also have "\<dots> \<le> ?E" by (rule token_end_le(2) [OF lo])
    finally have RE: "?R \<le> ?E" .
    have "?E \<le> getFileOffset (getLocation (?Toks ! k))" by (rule token_end_le(1) [OF lo])
    also have "\<dots> \<le> ?R'"
      using laid_out_mono [OF assms(2), of "?c' - 1" k] c' deletion(3) by simp
    finally have ER: "?E \<le> ?R'" .
    from deletion(1) have "raw_side_offsets (RB s') = raw_side_offsets (RB s) @ [?R, ?E]"
      by (simp add: raw_side_offsets_def from_raw_side_def)
    with so bd RE ER RR show ?thesis by (fastforce simp: mono_inv_def sorted_append)
  next
    case (insertion tx)
    then have "raw_side_offsets (RB s') = raw_side_offsets (RB s)"
      by (simp add: raw_side_offsets_def from_raw_side_def expansion_not_closer)
    with so bd RR show ?thesis by (fastforce simp: mono_inv_def)
  qed
qed

section \<open>Lemmas on directive lines\<close>

lemma inline_before_line_end:
  assumes "i < m" "m < line_end Toks i"
  shows "inline_tok (Toks ! m) \<and> m < length Toks"
proof -
  let ?xs = "drop (Suc i) Toks"
  let ?tw = "takeWhile inline_tok ?xs"
  from assms have k: "m - Suc i < length ?tw" by (simp add: line_end_def)
  also have "length ?tw \<le> length ?xs" by (rule length_takeWhile_le)
  finally have lt: "m - Suc i < length ?xs" .
  with assms(1) have m: "m < length Toks" by simp
  from k have "?tw ! (m - Suc i) \<in> set ?tw" by (rule nth_mem)
  then have "inline_tok (?tw ! (m - Suc i))" by (rule set_takeWhileD [THEN conjunct2])
  also have "?tw ! (m - Suc i) = ?xs ! (m - Suc i)" using k by (rule takeWhile_nth)
  also have "\<dots> = Toks ! m" using assms(1) m by simp
  finally show ?thesis using m by simp
qed

lemma line_end_least:
  assumes "i < m" "m < length Toks" "\<not> inline_tok (Toks ! m)"
  shows "line_end Toks i \<le> m"
proof (rule ccontr)
  assume "\<not> line_end Toks i \<le> m"
  then have "m < line_end Toks i" by simp
  from inline_before_line_end [OF assms(1) this] assms(3) show False by simp
qed

lemma line_end_lexed:
  assumes "lexed_ok Toks" "i < length Toks" "getKind (Toks ! i) \<noteq> tok_eof"
  shows "i < line_end Toks i" and "line_end Toks i < length Toks"
    and "\<not> inline_tok (Toks ! line_end Toks i)"
proof -
  let ?xs = "drop (Suc i) Toks"
  let ?tw = "takeWhile inline_tok ?xs"
  show "i < line_end Toks i" by (simp add: line_end_def)
  from lexed_Suc_lt [OF assms] have lt: "Suc i < length Toks" .
  then have ne: "?xs \<noteq> []" and "last ?xs = last Toks" by simp_all
  with assms(1) have "\<not> inline_tok (last ?xs)" by (simp add: lexed_ok_def inline_tok_def)
  from takeWhile_stops [of ?xs inline_tok, OF ne this] have st: "length ?tw < length ?xs" .
  then show le: "line_end Toks i < length Toks" by (simp add: line_end_def)
  from nth_length_takeWhile [OF st] have "\<not> inline_tok (?xs ! length ?tw)" .
  moreover have "?xs ! length ?tw = Toks ! line_end Toks i"
    using le by (simp add: line_end_def)
  ultimately show "\<not> inline_tok (Toks ! line_end Toks i)" by simp
qed

lemma skip_line_stop: "\<not> inline_tok T \<Longrightarrow> skip_line Toks T c = Inr (T, c)"
  by (subst skip_line.simps) (auto simp: inline_tok_def)

lemma skip_line_go:
  "inline_tok T \<Longrightarrow> skip_line Toks T c =
     (case GetNextRawTok Toks c False of Inl e \<Rightarrow> Inl e | Inr (T1, c1) \<Rightarrow> skip_line Toks T1 c1)"
  by (subst skip_line.simps) (auto simp: inline_tok_def)

lemma commented_out_iff:
  assumes "lexed_ok Toks" "0 < c" "c \<le> length Toks" "getKind (Toks ! (c - 1)) = tok_hash"
  shows "commented_out (drop c Toks) \<longleftrightarrow>
     ((getKind (Toks ! c) = tok_identifier \<and> getIdentifierInfo (Toks ! c) = Some ''warning'') \<or>
      (getKind (Toks ! c) = tok_identifier \<and> getIdentifierInfo (Toks ! c) = Some ''pragma'' \<and>
       getKind (Toks ! (c + 1)) = tok_identifier \<and>
       getIdentifierInfo (Toks ! (c + 1)) = Some ''mark''))"
proof -
  from assms have lt: "c < length Toks"
    using lexed_Suc_lt[of Toks "c - 1"] by simp
  show ?thesis
  proof (cases "Suc c < length Toks")
    case True
    then have "drop c Toks = Toks ! c # Toks ! Suc c # drop (Suc (Suc c)) Toks"
      using lt by (simp add: Cons_nth_drop_Suc)
    then show ?thesis by (simp add: named_def)
  next
    case False
    with lt have d: "drop c Toks = [Toks ! c]"
      by (metis Cons_nth_drop_Suc drop_all not_less)
    from False lexed_Suc_lt [OF assms(1) lt] have "getKind (Toks ! c) = tok_eof" by auto
    with d show ?thesis by (simp add: named_def)
  qed
qed

lemma lines_laid_out_nth:
  "lines_laid_out Toks \<Longrightarrow> Suc i < length Toks \<Longrightarrow>
   unat (getFileOffset (getLocation (Toks ! i))) + unat (getLength (Toks ! i))
     \<le> unat (getFileOffset (getLocation (Toks ! Suc i))) \<and>
   0 < unat (getLength (Toks ! i)) \<and>
   (isAtStartOfLine (Toks ! Suc i) \<longrightarrow>
      unat (getFileOffset (getLocation (Toks ! i))) + unat (getLength (Toks ! i))
        < unat (getFileOffset (getLocation (Toks ! Suc i))))"
proof (induction Toks arbitrary: i rule: lines_laid_out.induct)
  case (1 a b ts)
  then show ?case by (cases i) simp_all
qed simp_all

lemma lines_end_le:
  assumes "lines_laid_out Toks" "j < length Toks"
  shows "i < j \<Longrightarrow>
         unat (getFileOffset (getLocation (Toks ! i))) + unat (getLength (Toks ! i))
           \<le> unat (getFileOffset (getLocation (Toks ! j)))"
  using assms(2)
proof (induction j)
  case 0
  then show ?case by simp
next
  case (Suc j)
  note n = lines_laid_out_nth [OF assms(1) Suc.prems(2)]
  show ?case
  proof (cases "i = j")
    case True
    with n show ?thesis by simp
  next
    case False
    with Suc.prems have "i < j" "j < length Toks" by simp_all
    from Suc.IH [OF this] n show ?thesis by simp
  qed
qed

lemma lines_end_less:
  assumes "lines_laid_out Toks" "j < length Toks" "i < j" "isAtStartOfLine (Toks ! j)"
  shows "unat (getFileOffset (getLocation (Toks ! i))) + unat (getLength (Toks ! i))
           < unat (getFileOffset (getLocation (Toks ! j)))"
proof -
  from assms(3) obtain k where k: "j = Suc k" by (cases j) simp_all
  note n = lines_laid_out_nth [OF assms(1), of k] 
  show ?thesis
  proof (cases "i = k")
    case True
    with n assms(2,4) k show ?thesis by simp
  next
    case False
    with assms(3) k have "i < k" by simp
    from lines_end_le [OF assms(1) _ this] assms(2) k
    have "unat (getFileOffset (getLocation (Toks ! i))) + unat (getLength (Toks ! i))
           \<le> unat (getFileOffset (getLocation (Toks ! k)))" by simp
    with n assms(2,4) k show ?thesis by simp
  qed
qed

lemma token_end_unat:
  assumes "unat (getFileOffset (getLocation a)) + unat (getLength a) \<le> unat (b :: 32 word)"
  shows "unat (token_end a) = unat (getFileOffset (getLocation a)) + unat (getLength a)"
proof -
  have "unat (getFileOffset (getLocation a)) + unat (getLength a) < 2 ^ 32"
    using assms unsigned_less[of b, where ?'a = nat] by simp
  then show ?thesis
    unfolding token_end_def by (intro unat_add_lem [THEN iffD1]) simp
qed

lemma lines_offset_less:
  assumes "lines_laid_out Toks" "j < length Toks" "i < j"
  shows "getFileOffset (getLocation (Toks ! i)) < getFileOffset (getLocation (Toks ! j))"
proof -
  from assms have "Suc i < length Toks" by simp
  from lines_laid_out_nth [OF assms(1) this] lines_end_le [OF assms]
  show ?thesis by (simp add: word_less_nat_alt)
qed

lemma lines_offset_le:
  assumes "lines_laid_out Toks" "j < length Toks" "i \<le> j"
  shows "getFileOffset (getLocation (Toks ! i)) \<le> getFileOffset (getLocation (Toks ! j))"
proof (cases "i = j")
  case False
  with assms(3) have "i < j" by simp
  from lines_offset_less [OF assms(1,2) this] show ?thesis by simp
qed simp

lemma lines_token_end:
  assumes "lines_laid_out Toks" "j < length Toks" "i < j"
  shows "getFileOffset (getLocation (Toks ! i)) \<le> token_end (Toks ! i)"
    and "token_end (Toks ! i) \<le> getFileOffset (getLocation (Toks ! j))"
    and "isAtStartOfLine (Toks ! j) \<Longrightarrow>
         token_end (Toks ! i) < getFileOffset (getLocation (Toks ! j))"
proof -
  note le = lines_end_le [OF assms]
  from token_end_le [OF le]
  show "getFileOffset (getLocation (Toks ! i)) \<le> token_end (Toks ! i)"
    and "token_end (Toks ! i) \<le> getFileOffset (getLocation (Toks ! j))" by simp_all
  show "token_end (Toks ! i) < getFileOffset (getLocation (Toks ! j))"
    if "isAtStartOfLine (Toks ! j)"
    using lines_end_less [OF assms that] token_end_unat [OF le]
    by (simp add: word_less_nat_alt)
qed

lemma GetNextRawTok_between:
  assumes "GetNextRawTok Toks c b = Inr (T, c')"
  shows "T = Toks ! (c' - 1) \<and> c < c' \<and> c' \<le> length Toks \<and>
         (\<forall>m. c \<le> m \<and> m < c' - 1 \<longrightarrow> getKind (Toks ! m) = tok_comment)"
proof (cases "\<not> b \<and> getKind (Toks ! c) = tok_comment")
  case True
  with assms have "c' = c + 2" "T = Toks ! (c + 1)" "c + 1 < length Toks"
    by (auto simp: GetNextRawTok_def Let_def split: if_splits)
  moreover have "getKind (Toks ! m) = tok_comment" if "c \<le> m" "m < c + 2 - 1" for m
  proof -
    from that have "m = c" by simp
    with True show ?thesis by simp
  qed
  ultimately show ?thesis by simp
next
  case False
  with assms have "c' = c + 1" "T = Toks ! c" "c < length Toks"
    by (auto simp: GetNextRawTok_def Let_def split: if_splits)
  then show ?thesis by auto
qed

lemma skip_line_between:
  "skip_line Toks T c = Inr (T', c') \<Longrightarrow> 0 < c \<Longrightarrow> T = Toks ! (c - 1) \<Longrightarrow>
   c \<le> c' \<and> T' = Toks ! (c' - 1) \<and> \<not> inline_tok T' \<and>
   (\<forall>m. c - 1 \<le> m \<and> m < c' - 1 \<longrightarrow>
      inline_tok (Toks ! m) \<or> getKind (Toks ! m) = tok_comment)"
proof (induction Toks T c rule: skip_line.induct)
  case (1 Toks T Cur)
  show ?case
  proof (cases "inline_tok T")
    case False
    with "1.prems" show ?thesis by (auto simp: skip_line_stop)
  next
    case True
    then have c: "\<not> isAtStartOfLine T \<and> getKind T \<noteq> tok_eof" by (simp add: inline_tok_def)
    from True "1.prems"(1) obtain T1 c1 where g: "GetNextRawTok Toks Cur False = Inr (T1, c1)"
      and r: "skip_line Toks T1 c1 = Inr (T', c')"
      by (auto simp: skip_line_go split: sum.splits)
    note gb = GetNextRawTok_between [OF g]
    from gb have c1: "0 < c1" "T1 = Toks ! (c1 - 1)" by simp_all
    note IH = "1.IH" [OF c g refl r c1]
    have "inline_tok (Toks ! m) \<or> getKind (Toks ! m) = tok_comment"
      if m: "Cur - 1 \<le> m" "m < c' - 1" for m
    proof -
      consider "m = Cur - 1" | "Cur \<le> m" "m < c1 - 1" | "c1 - 1 \<le> m"
        using m "1.prems"(2) by linarith
      then show ?thesis
      proof cases
        case 1
        with True "1.prems"(3) show ?thesis by simp
      next
        case 2
        with gb show ?thesis by simp
      next
        case 3
        with IH m show ?thesis by simp
      qed
    qed
    with IH gb show ?thesis by auto
  qed
qed

lemma directive_edit_eq:
  assumes "lexed_ok Toks" "i < length Toks" "getKind (Toks ! i) = tok_hash"
  shows "directive_edit Toks i =
     (if named ''warning'' (Toks ! (i + 1)) \<or>
         (named ''pragma'' (Toks ! (i + 1)) \<and> named ''mark'' (Toks ! (i + 2)))
      then [InsertTextAfter (getFileOffset (getLocation (Toks ! i))) ''//''] else [])"
  using commented_out_iff [OF assms(1), of "Suc i"] assms(2,3)
  by (simp add: directive_edit_def named_def)

lemma directive_effect:
  assumes lx: "lexed_ok (RawTokens I)" and co: "cursor_ok I s"
    and dir: "is_directive (RawTok s)" and main: "isFromMainFile (getLocation (PPTok s))"
  shows "\<exists>s'. loop_body I s = Some (Inr s') \<and> cursor_ok I s' \<and>
           RB s' = RB s @ directive_edit (RawTokens I) (CurRawTok s - 1) \<and>
           PPTok s' = PPTok s \<and> PPCur s' = PPCur s \<and>
           CurRawTok s < CurRawTok s' \<and> \<not> inline_tok (RawTok s') \<and>
           line_end (RawTokens I) (CurRawTok s - 1) \<le> CurRawTok s' - 1 \<and>
           (\<forall>m. CurRawTok s \<le> m \<and> m < CurRawTok s' - 1 \<longrightarrow>
              inline_tok (RawTokens I ! m) \<or> getKind (RawTokens I ! m) = tok_comment)"
proof -
  let ?Toks = "RawTokens I" and ?c = "CurRawTok s"
  from co have c: "0 < ?c" "?c \<le> length ?Toks" "RawTok s = ?Toks ! (?c - 1)"
    by (simp_all add: cursor_ok_def)
  from dir have hs: "getKind (RawTok s) = tok_hash" "isAtStartOfLine (RawTok s)"
    by (simp_all add: is_directive_def)
  with c have h: "getKind (?Toks ! (?c - 1)) = tok_hash" by simp
  then have lt: "?c < length ?Toks"
    using lexed_Suc_lt [OF lx, of "?c - 1"] c by simp
  have de: "directive_edits ?Toks ?c (RawTok s) = Inr (directive_edit ?Toks (?c - 1))"
    using directive_edits_lexed [OF lx c(1,2) h, of "RawTok s"] commented_out_iff [OF lx c(1,2) h] c
    by (simp add: directive_edit_def)
  from GetNextRawTok_lexed [OF lx lt, of False]
  obtain c1 where g: "GetNextRawTok ?Toks ?c False = Inr (?Toks ! (c1 - 1), c1)"
    and c1: "?c < c1" "c1 \<le> length ?Toks" by blast
  from skip_line_lexed [OF lx _ c1(2) refl] c1
  obtain c2 where sk: "skip_line ?Toks (?Toks ! (c1 - 1)) c1 = Inr (?Toks ! (c2 - 1), c2)"
    and c2: "c1 \<le> c2" "c2 \<le> length ?Toks" by auto
  let ?s' = "s\<lparr>RawTok := ?Toks ! (c2 - 1), CurRawTok := c2,
               RB := RB s @ directive_edit ?Toks (?c - 1)\<rparr>"
  from de g sk main hs have run: "loop_body I s = Some (Inr ?s')"
    by (simp add: loop_body_def directive_step_def)
  note gb = GetNextRawTok_between [OF g]
  from c1 have p1: "0 < c1" by simp
  note sb = skip_line_between [OF sk p1 refl]
  from sb have ni: "\<not> inline_tok (?Toks ! (c2 - 1))" by simp
  have le: "line_end ?Toks (?c - 1) \<le> c2 - 1"
    using line_end_least [of "?c - 1" "c2 - 1" ?Toks] c c1 c2 ni by simp
  have bt: "inline_tok (?Toks ! m) \<or> getKind (?Toks ! m) = tok_comment"
    if m: "?c \<le> m" "m < c2 - 1" for m
  proof (cases "m < c1 - 1")
    case True
    with gb m show ?thesis by simp
  next
    case False
    with sb m show ?thesis by simp
  qed
  from c1 c2 have ok': "cursor_ok I ?s'" by (simp add: cursor_ok_def)
  from c1 c2 have adv: "?c < c2" by simp
  show ?thesis
    using run ok' adv ni le bt by (intro exI [of _ ?s']) simp
qed

lemma loop_body_between:
  assumes "well_formed I" "state_ok I s" "loop_cond s" "loop_body I s = Some (Inr s')"
  shows "\<forall>m. CurRawTok s \<le> m \<and> m < CurRawTok s' - 1 \<longrightarrow> \<not> is_directive (RawTokens I ! m)"
proof (cases "isFromMainFile (getLocation (PPTok s))")
  case False
  with assms(4) have "CurRawTok s' = CurRawTok s" by (auto simp: loop_body_def foreign_step_def)
  then show ?thesis by auto
next
  case main: True
  let ?Toks = "RawTokens I" and ?c = "CurRawTok s"
  from assms(1) have ro: "raw_ok ?Toks" by (simp add: well_formed_def)
  show ?thesis
  proof (cases "is_directive (RawTok s)")
    case True
    from assms(2) have "cursor_ok I s" by (simp add: state_ok_def)
    from directive_effect [OF raw_ok_lexed [OF ro] this True main] assms(4) show ?thesis
      by (auto simp: is_directive_def inline_tok_def)
  next
    case False
    then have nd: "(getKind (RawTok s) = tok_hash \<and> isAtStartOfLine (RawTok s)) = False"
      by (simp add: is_directive_def)
    show ?thesis
    proof (cases "getFileOffset (getLocation (PPTok s)) = getFileOffset (getLocation (RawTok s))
                  \<and> isSameToken (RawTok s) (PPTok s)")
      case True
      with main assms(4) have "match_step I s = Inr s'" by (simp add: nd loop_body_def)
      then obtain T1 where "GetNextRawTok ?Toks ?c False = Inr (T1, CurRawTok s')"
        by (auto simp: match_step_def split: sum.splits)
      from GetNextRawTok_between [OF this] show ?thesis by (auto simp: is_directive_def)
    next
      case False
      then have nm: "(getFileOffset (getLocation (PPTok s)) = getFileOffset (getLocation (RawTok s))
                  \<and> isSameToken (RawTok s) (PPTok s)) = False" by simp
      show ?thesis
      proof (cases "getFileOffset (getLocation (RawTok s)) \<le> getFileOffset (getLocation (PPTok s))")
        case True
        with main assms(4) have d: "deletion_run I s = Inr s'" by (simp add: nd nm loop_body_def)
        from assms(2) have co: "cursor_ok I s" by (simp add: state_ok_def)
        let ?tw = "takeWhile (deletable (PPTok s)) (drop ?c ?Toks)"
        let ?k = "?c + length ?tw"
        note ch = deletion_run_char [OF co d refl]
        have del: "\<not> is_directive (?Toks ! m)" if m: "?c \<le> m" "m < ?k" for m
        proof -
          from m have k: "m - ?c < length ?tw" by simp
          then have "?tw ! (m - ?c) \<in> set ?tw" by (rule nth_mem)
          then have "deletable (PPTok s) (?tw ! (m - ?c))" by (rule set_takeWhileD [THEN conjunct2])
          also have "?tw ! (m - ?c) = drop ?c ?Toks ! (m - ?c)" using k by (rule takeWhile_nth)
          also have "\<dots> = ?Toks ! m" using m ch(1) by simp
          finally show ?thesis by (simp add: deletable_def is_directive_def)
        qed
        show ?thesis
        proof (cases "getKind (?Toks ! ?k) = tok_comment")
          case cmt: True
          note gb = GetNextRawTok_between [OF ch(5) [OF cmt]]
          have "\<not> is_directive (?Toks ! m)" if m: "?c \<le> m" "m < CurRawTok s' - 1" for m
          proof -
            consider "m < ?k" | "m = ?k" | "?k + 1 \<le> m" by linarith
            then show ?thesis
            proof cases
              case 1
              with del m show ?thesis by simp
            next
              case 2
              with cmt show ?thesis by (simp add: is_directive_def)
            next
              case 3
              with gb m have "getKind (?Toks ! m) = tok_comment" by simp
              then show ?thesis by (simp add: is_directive_def)
            qed
          qed
          then show ?thesis by simp
        next
          case False
          from ch(6) [OF False] del show ?thesis by simp
        qed
      next
        case False
        with main assms(4) have "insertion_run I s = Some s'"
          by (auto simp: nd nm loop_body_def)
        then have "CurRawTok s' = CurRawTok s"
          by (auto simp: insertion_run_def Let_def split: option.splits)
        then show ?thesis by auto
      qed
    qed
  qed
qed

lemma dir_step:
  assumes wf: "well_formed I" and lo: "lines_laid_out (RawTokens I)"
    and pp: "pp_outside_directives I"
    and ok: "state_ok I s" and lc: "loop_cond s"
    and b: "loop_body I s = Some (Inr s')" and inv: "dir_inv I s"
  shows "dir_inv I s'"
proof -
  let ?Toks = "RawTokens I"
  let ?r = "CurRawTok s - 1" and ?r' = "CurRawTok s' - 1"
  let ?o = "\<lambda>t. getFileOffset (getLocation t)"
  let ?in = "\<lambda>i e. in_line ?Toks i (edit_offset e)"
  from wf have ro: "raw_ok ?Toks" by (simp add: well_formed_def)
  note ec = loop_body_edit_cases [OF wf ok lc b]
  from ok have c: "0 < CurRawTok s" "CurRawTok s \<le> length ?Toks" "RawTok s = ?Toks ! ?r"
    by (simp_all add: state_ok_def cursor_ok_def)
  from ec have c': "0 < CurRawTok s'" "CurRawTok s' \<le> length ?Toks" "RawTok s' = ?Toks ! ?r'"
    and adv: "CurRawTok s \<le> CurRawTok s'"
    by (simp_all add: state_ok_def cursor_ok_def)
  from c c' adv have r: "?r < length ?Toks" "?r' < length ?Toks" "?r \<le> ?r'" by simp_all
  note btw = loop_body_between [OF wf ok lc b]
  from inv have A: "\<And>i. i < ?r \<Longrightarrow> is_directive (?Toks ! i) \<Longrightarrow> line_end ?Toks i \<le> ?r"
    and B: "\<And>i. i < length ?Toks \<Longrightarrow> is_directive (?Toks ! i) \<Longrightarrow>
              filter (?in i) (RB s) = (if i < ?r then directive_edit ?Toks i else [])"
    by (simp_all add: dir_inv_def)
  have F1: "\<not> in_line ?Toks i off"
    if "i < ?r" "is_directive (?Toks ! i)" "?o (?Toks ! ?r) \<le> off" for i off
  proof -
    from A [OF that(1,2)] have "line_end ?Toks i \<le> ?r" .
    from lines_offset_le [OF lo r(1) this] that(3) show ?thesis by (auto simp: in_line_def)
  qed
  have F2: "\<not> in_line ?Toks i off" if "off < ?o (?Toks ! i)" for i off
    using that by (auto simp: in_line_def)
  have F4: "\<not> in_line ?Toks i (?o (PPTok s))"
    if "i < length ?Toks" "is_directive (?Toks ! i)" "isFromMainFile (getLocation (PPTok s))" for i
  proof -
    from pp_tok_cases [OF ok] show ?thesis
    proof
      assume "PPTok s = PPEof I"
      with wf have e: "?o (PPTok s) = ?o (last ?Toks)" by (simp add: well_formed_def pp_ok_def)
      from that(2) have ne: "getKind (?Toks ! i) \<noteq> tok_eof" by (simp add: is_directive_def)
      note le = line_end_lexed [OF raw_ok_lexed [OF ro] that(1) ne]
      from raw_offset_le_end [OF ro le(2)] e show ?thesis by (auto simp: in_line_def)
    next
      assume "PPTok s \<in> set (PPTokens I) \<and> PPCur s \<le> length (PPTokens I)"
      with pp that show ?thesis by (auto simp: pp_outside_directives_def)
    qed
  qed
  have nb: "i < ?r \<or> i = ?r \<or> (?r < i \<and> ?r' \<le> i)" if "is_directive (?Toks ! i)" for i
  proof (rule ccontr)
    assume "\<not> (i < ?r \<or> i = ?r \<or> (?r < i \<and> ?r' \<le> i))"
    then have "CurRawTok s \<le> i \<and> i < ?r'" using c by auto
    with btw that show False by simp
  qed
  show ?thesis
  proof (cases "isFromMainFile (getLocation (PPTok s))")
    case False
    with b have "s' = foreign_step I s" by (simp add: loop_body_def)
    then have "RB s' = RB s" "CurRawTok s' = CurRawTok s" by (simp_all add: foreign_step_def)
    with inv show ?thesis by (simp add: dir_inv_def)
  next
    case main: True
    show ?thesis
    proof (cases "is_directive (RawTok s)")
      case True
      from ok have co: "cursor_ok I s" by (simp add: state_ok_def)
      from directive_effect [OF raw_ok_lexed [OF ro] co True main] b
      have rb: "RB s' = RB s @ directive_edit ?Toks ?r" and lt: "CurRawTok s < CurRawTok s'"
        and le: "line_end ?Toks ?r \<le> ?r'" by auto
      from lt c have rr: "?r < ?r'" by simp
      from True c have dr: "is_directive (?Toks ! ?r)" by simp
      then have ne: "getKind (?Toks ! ?r) \<noteq> tok_eof" by (simp add: is_directive_def)
      note ler = line_end_lexed [OF raw_ok_lexed [OF ro] r(1) ne]
      have off: "edit_offset e = ?o (?Toks ! ?r)" if "e \<in> set (directive_edit ?Toks ?r)" for e
        using that by (auto simp: directive_edit_def split: if_splits)
      have inr: "in_line ?Toks ?r (?o (?Toks ! ?r))"
        using lines_offset_less [OF lo ler(2,1)] by (simp add: in_line_def)
      show ?thesis
        unfolding dir_inv_def
      proof (intro conjI allI impI)
        fix i
        assume i: "i < ?r' \<and> is_directive (?Toks ! i)"
        with nb [of i] have "i < ?r \<or> i = ?r" by auto
        then show "line_end ?Toks i \<le> ?r'"
        proof
          assume "i < ?r"
          from A [OF this] i r(3) show ?thesis by simp
        next
          assume "i = ?r"
          with le show ?thesis by simp
        qed
      next
        fix i
        assume i: "i < length ?Toks \<and> is_directive (?Toks ! i)"
        from nb [of i] i consider "i < ?r" | "i = ?r" | "?r < i" "?r' \<le> i" by auto
        then show "filter (?in i) (RB s') = (if i < ?r' then directive_edit ?Toks i else [])"
        proof cases
          case 1
          have "filter (?in i) (directive_edit ?Toks ?r) = []"
            using F1 [OF 1] i off by (auto simp: filter_empty_conv)
          with B [of i] i 1 rr show ?thesis unfolding rb by simp
        next
          case 2
          have "filter (?in i) (directive_edit ?Toks ?r) = directive_edit ?Toks ?r"
            using inr off 2 by (auto simp: filter_id_conv)
          with B [of i] i 2 rr show ?thesis unfolding rb by simp
        next
          case 3
          from lines_offset_less [OF lo _ 3(1)] i
          have "?o (?Toks ! ?r) < ?o (?Toks ! i)" by simp
          from F2 [OF this] have "filter (?in i) (directive_edit ?Toks ?r) = []"
            using off by (auto simp: filter_empty_conv)
          with B [of i] i 3 show ?thesis unfolding rb by simp
        qed
      qed
    next
      case False
      with c have ndr: "\<not> is_directive (?Toks ! ?r)" by simp
      have raw_out: "\<not> in_line ?Toks i off"
        if "i < length ?Toks" "is_directive (?Toks ! i)" "?o (?Toks ! ?r) \<le> off"
          "\<And>j. ?r' \<le> j \<Longrightarrow> ?r < j \<Longrightarrow> j < length ?Toks \<Longrightarrow> isAtStartOfLine (?Toks ! j) \<Longrightarrow>
                off < ?o (?Toks ! j)" for i off
      proof -
        from nb [OF that(2)] ndr that(2) consider "i < ?r" | "?r < i" "?r' \<le> i" by auto
        then show ?thesis
        proof cases
          case 1
          from F1 [OF 1 that(2,3)] show ?thesis .
        next
          case 2
          from that(2) have "isAtStartOfLine (?Toks ! i)" by (simp add: is_directive_def)
          from that(4) [OF 2(2,1) that(1) this] show ?thesis by (rule F2)
        qed
      qed
      have at_raw: "\<not> in_line ?Toks i (?o (RawTok s))"
        if "i < length ?Toks" "is_directive (?Toks ! i)" for i
      proof (rule raw_out [OF that])
        show "?o (?Toks ! ?r) \<le> ?o (RawTok s)" using c by simp
        show "?o (RawTok s) < ?o (?Toks ! j)" if "?r < j" "j < length ?Toks" for j
          using lines_offset_less [OF lo that(2,1)] c by simp
      qed
      have at_end: "\<not> in_line ?Toks i (token_end (?Toks ! (k - 1)))"
        if "i < length ?Toks" "is_directive (?Toks ! i)" "CurRawTok s \<le> k" "k < CurRawTok s'"
        for i k
      proof (rule raw_out [OF that(1,2)])
        from that(3,4) c c' have k: "?r \<le> k - 1" "k - 1 < k" "k < length ?Toks" "k \<le> ?r'"
          by simp_all
        have "?o (?Toks ! ?r) \<le> ?o (?Toks ! (k - 1))"
          using lines_offset_le [OF lo _ k(1)] k by simp
        also have "\<dots> \<le> token_end (?Toks ! (k - 1))"
          by (rule lines_token_end(1) [OF lo k(3,2)])
        finally show "?o (?Toks ! ?r) \<le> token_end (?Toks ! (k - 1))" .
        show "token_end (?Toks ! (k - 1)) < ?o (?Toks ! j)"
          if "?r' \<le> j" "j < length ?Toks" "isAtStartOfLine (?Toks ! j)" for j
        proof -
          from that(1) k have "k - 1 < j" by simp
          from lines_token_end(3) [OF lo that(2) this that(3)] show ?thesis .
        qed
      qed
      from ec have "RB s' = RB s \<or>
        RB s' = RB s @ [InsertTextAfter (?o (RawTok s)) ''//''] \<or>
        (\<exists>k. RB s' = RB s @
                [InsertTextAfter (?o (RawTok s)) (comment_opener (hasLeadingSpace (RawTok s))),
                 InsertTextBefore (token_end (?Toks ! (k - 1))) ''*/''] \<and>
              CurRawTok s \<le> k \<and> k < CurRawTok s') \<or>
        (\<exists>txt. RB s' = RB s @ [InsertTextBefore (?o (PPTok s)) (txt @ '' '')] \<and>
              CurRawTok s' = CurRawTok s)" by simp
      then consider
          (same) "RB s' = RB s"
        | (directive) "RB s' = RB s @ [InsertTextAfter (?o (RawTok s)) ''//'']"
        | (deletion) k where "RB s' = RB s @
                [InsertTextAfter (?o (RawTok s)) (comment_opener (hasLeadingSpace (RawTok s))),
                 InsertTextBefore (token_end (?Toks ! (k - 1))) ''*/'']"
              "CurRawTok s \<le> k" "k < CurRawTok s'"
        | (insertion) tx where
            "RB s' = RB s @ [InsertTextBefore (?o (PPTok s)) (tx @ '' '')]"
        by blast
      then have keep: "filter (?in i) (RB s') = filter (?in i) (RB s)"
        if "i < length ?Toks" "is_directive (?Toks ! i)" for i
      proof cases
        case same
        then show ?thesis by simp
      next
        case directive
        with at_raw [OF that] show ?thesis by simp
      next
        case (deletion k)
        with at_raw [OF that] at_end [OF that deletion(2,3)] show ?thesis by simp
      next
        case (insertion tx)
        with F4 [OF that main] show ?thesis by simp
      qed
      show ?thesis
        unfolding dir_inv_def
      proof (intro conjI allI impI)
        fix i
        assume i: "i < ?r' \<and> is_directive (?Toks ! i)"
        with nb [of i] ndr have "i < ?r" by auto
        from A [OF this] i r(3) show "line_end ?Toks i \<le> ?r'" by simp
      next
        fix i
        assume i: "i < length ?Toks \<and> is_directive (?Toks ! i)"
        with nb [of i] ndr have "i < ?r' \<longleftrightarrow> i < ?r" using r(3) by auto
        with keep [of i] B [of i] i
        show "filter (?in i) (RB s') = (if i < ?r' then directive_edit ?Toks i else [])"
          by simp
      qed
    qed
  qed
qed

lemma dir_inv_init:
  assumes "raw_ok (RawTokens I)" "init_state I = Inr s0"
  shows "dir_inv I s0"
proof -
  from assms(2) obtain T c where g: "GetNextRawTok (RawTokens I) 0 False = Inr (T, c)"
    and s0: "CurRawTok s0 = c" "RB s0 = []"
    by (auto simp: init_state_def split: sum.splits)
  note gb = GetNextRawTok_between [OF g]
  have "\<not> is_directive (RawTokens I ! i)" if "i < c - 1" for i
  proof -
    from gb that have "getKind (RawTokens I ! i) = tok_comment" by simp
    then show ?thesis by (simp add: is_directive_def)
  qed
  then show ?thesis by (auto simp: dir_inv_def s0)
qed

section \<open>Lemmas on files without macro invocations\<close>











section \<open>Token equality and the raw cursor\<close>

text \<open>
  C5. For every pair of tokens, \<^verbatim>\<open>isSameToken\<close> is true exactly when the two tokens
  have the same kind and the same (possibly null) identifier info, or carry the same
  identifier info which is not null, whatever their kinds.
\<close>

theorem isSameToken_iff:
  "isSameToken r p =
     ((getKind r = getKind p \<and> getIdentifierInfo r = getIdentifierInfo p) \<or>
      (getIdentifierInfo p \<noteq> None \<and> getIdentifierInfo r = getIdentifierInfo p))"
  by (cases "getIdentifierInfo r") (auto simp: isSameToken_def)

text \<open>
  C10. Asked to skip comments, \<^verbatim>\<open>GetNextRawTok\<close> steps over one comment only: with
  the cursor on the first of two consecutive comments it returns the second comment, and
  leaves the cursor behind it.
\<close>

theorem GetNextRawTok_second_comment:
  assumes "c + 1 < length Toks"
    and "getKind (Toks ! c) = tok_comment"
    and "getKind (Toks ! (c + 1)) = tok_comment"
  shows "GetNextRawTok Toks c False = Inr (Toks ! (c + 1), c + 2) \<and>
         getKind (Toks ! (c + 1)) = tok_comment"
  using assms by (simp add: GetNextRawTok_def)

theorem GetNextRawTok_second_comment_witness:
  "0 + 1 < length (RawTokens two_comments_input) \<and>
   getKind (RawTokens two_comments_input ! 0) = tok_comment \<and>
   getKind (RawTokens two_comments_input ! (0 + 1)) = tok_comment \<and>
   GetNextRawTok (RawTokens two_comments_input) 0 False
     = Inr (RawTokens two_comments_input ! (0 + 1), 0 + 2)"
  using GetNextRawTok_second_comment [of 0 "RawTokens two_comments_input"]
  by (simp add: two_comments_input_def mk_token_def)

section \<open>Directive lines\<close>

text \<open>
  C3. With the raw tokens as \<^verbatim>\<open>LexRawTokensFromMainFile\<close> builds them, an iteration
  that finds the raw cursor on a \<^verbatim>\<open>#\<close> at the start of a line issues one edit exactly
  when the next raw token is the identifier \<^verbatim>\<open>warning\<close>, or is the identifier
  \<^verbatim>\<open>pragma\<close> with the identifier \<^verbatim>\<open>mark\<close> right behind it: the text
  \<^verbatim>\<open>//\<close>, at the offset of the \<^verbatim>\<open>#\<close>. The iteration leaves the preprocessed
  token alone and moves the raw cursor over the rest of the line, over tokens that do not
  start a line and over comments, to a token that starts a line or is the end-of-file token,
  at or behind the end of the directive line. (As long as the preprocessed token is not of
  the main file, lines 117 to 119 drop it first, and nothing else happens.)

  On token streams as the lexer and the preprocessor give them, the pass is completed, and
  the edits that lie in a directive line, from the offset of its \<^verbatim>\<open>#\<close> up to the
  token the next line begins with, are that one edit for the lines that pass this test and
  none at all for every other directive line.
\<close>

theorem directive_line_edit:
  "(\<forall>s. lexed_ok (RawTokens I) \<and> cursor_ok I s \<and> is_directive (RawTok s) \<longrightarrow>
      (\<exists>s'. loop_body I s = Some (Inr s') \<and>
         (if isFromMainFile (getLocation (PPTok s)) then
            RB s' = RB s @
              (if named ''warning'' (RawTokens I ! CurRawTok s) \<or>
                  (named ''pragma'' (RawTokens I ! CurRawTok s) \<and>
                   named ''mark'' (RawTokens I ! (CurRawTok s + 1)))
               then [InsertTextAfter (getFileOffset (getLocation (RawTok s))) ''//'']
               else []) \<and>
            PPTok s' = PPTok s \<and> PPCur s' = PPCur s \<and>
            CurRawTok s < CurRawTok s' \<and>
            RawTok s' = RawTokens I ! (CurRawTok s' - 1) \<and>
            \<not> inline_tok (RawTok s') \<and>
            line_end (RawTokens I) (CurRawTok s - 1) \<le> CurRawTok s' - 1 \<and>
            (\<forall>m. CurRawTok s \<le> m \<and> m < CurRawTok s' - 1 \<longrightarrow>
               inline_tok (RawTokens I ! m) \<or> getKind (RawTokens I ! m) = tok_comment)
          else s' = foreign_step I s))) \<and>
   (well_formed I \<and> lines_laid_out (RawTokens I) \<and> pp_outside_directives I \<longrightarrow>
      (\<exists>es. RewriteMacrosInInput I = Some (Inr es) \<and>
         (\<forall>i. i < length (RawTokens I) \<and> is_directive (RawTokens I ! i) \<longrightarrow>
            filter (\<lambda>e. in_line (RawTokens I) i (edit_offset e)) es =
              (if named ''warning'' (RawTokens I ! (i + 1)) \<or>
                  (named ''pragma'' (RawTokens I ! (i + 1)) \<and>
                   named ''mark'' (RawTokens I ! (i + 2)))
               then [InsertTextAfter (getFileOffset (getLocation (RawTokens I ! i))) ''//'']
               else []))))"
proof (intro conjI allI impI)
  let ?Toks = "RawTokens I"
  fix s
  assume a: "lexed_ok ?Toks \<and> cursor_ok I s \<and> is_directive (RawTok s)"
  then have lx: "lexed_ok ?Toks" and co: "cursor_ok I s" and dir: "is_directive (RawTok s)"
    by simp_all
  from co have c: "0 < CurRawTok s" "CurRawTok s \<le> length ?Toks"
      "RawTok s = ?Toks ! (CurRawTok s - 1)"
    by (simp_all add: cursor_ok_def)
  show "\<exists>s'. loop_body I s = Some (Inr s') \<and>
               (if isFromMainFile (getLocation (PPTok s)) then
                  RB s' = RB s @
                    (if named ''warning'' (?Toks ! CurRawTok s) \<or>
                        (named ''pragma'' (?Toks ! CurRawTok s) \<and>
                         named ''mark'' (?Toks ! (CurRawTok s + 1)))
                     then [InsertTextAfter (getFileOffset (getLocation (RawTok s))) ''//'']
                     else []) \<and>
                  PPTok s' = PPTok s \<and> PPCur s' = PPCur s \<and>
                  CurRawTok s < CurRawTok s' \<and>
                  RawTok s' = ?Toks ! (CurRawTok s' - 1) \<and>
                  \<not> inline_tok (RawTok s') \<and>
                  line_end ?Toks (CurRawTok s - 1) \<le> CurRawTok s' - 1 \<and>
                  (\<forall>m. CurRawTok s \<le> m \<and> m < CurRawTok s' - 1 \<longrightarrow>
                     inline_tok (?Toks ! m) \<or> getKind (?Toks ! m) = tok_comment)
                else s' = foreign_step I s)"
  proof (cases "isFromMainFile (getLocation (PPTok s))")
    case False
    then show ?thesis by (simp add: loop_body_def)
  next
    case True
    from dir c have h: "getKind (?Toks ! (CurRawTok s - 1)) = tok_hash"
      by (simp add: is_directive_def)
    from directive_edit_eq [OF lx _ h] c
    have de: "directive_edit ?Toks (CurRawTok s - 1) =
        (if named ''warning'' (?Toks ! CurRawTok s) \<or>
            (named ''pragma'' (?Toks ! CurRawTok s) \<and> named ''mark'' (?Toks ! (CurRawTok s + 1)))
         then [InsertTextAfter (getFileOffset (getLocation (RawTok s))) ''//''] else [])"
      by simp
    from directive_effect [OF lx co dir True] obtain s' where
      e: "loop_body I s = Some (Inr s')" "cursor_ok I s'"
         "RB s' = RB s @ directive_edit ?Toks (CurRawTok s - 1)"
         "PPTok s' = PPTok s" "PPCur s' = PPCur s" "CurRawTok s < CurRawTok s'"
         "\<not> inline_tok (RawTok s')" "line_end ?Toks (CurRawTok s - 1) \<le> CurRawTok s' - 1"
         "\<forall>m. CurRawTok s \<le> m \<and> m < CurRawTok s' - 1 \<longrightarrow>
              inline_tok (?Toks ! m) \<or> getKind (?Toks ! m) = tok_comment"
      by blast
    from e(2) have "RawTok s' = ?Toks ! (CurRawTok s' - 1)"
      by (simp add: cursor_ok_def)
    with True e show ?thesis unfolding de by (intro exI [of _ s']) simp
  qed
next
  let ?Toks = "RawTokens I"
  assume hyp: "well_formed I \<and> lines_laid_out ?Toks \<and> pp_outside_directives I"
  then have wf: "well_formed I" and lo: "lines_laid_out ?Toks"
    and pp: "pp_outside_directives I" by simp_all
  from wf have ro: "raw_ok ?Toks" by (simp add: well_formed_def)
  from init_state_ok [OF ro] obtain s0 where s0: "init_state I = Inr s0" "state_ok I s0"
    by blast
  from dir_inv_init [OF ro s0(1)] s0(2) have i0: "state_ok I s0 \<and> dir_inv I s0" by simp
  have step: "\<exists>s'. loop_body I s = Some (Inr s') \<and> (state_ok I s' \<and> dir_inv I s') \<and>
                remaining I s' < remaining I s"
    if "state_ok I s \<and> dir_inv I s" "loop_cond s" for s
  proof -
    from that loop_body_step [OF wf, of s] obtain s' where
      b: "loop_body I s = Some (Inr s')" "state_ok I s'" "remaining I s' < remaining I s" by blast
    from dir_step [OF wf lo pp _ that(2) b(1)] that(1) have "dir_inv I s'" by simp
    with b show ?thesis by blast
  qed
  from main_loop_rule [of "\<lambda>s. state_ok I s \<and> dir_inv I s", OF i0 step]
  obtain s' where m: "main_loop I s0 = Some (Inr s')" and ok: "state_ok I s'"
    and inv: "dir_inv I s'" and ex: "\<not> loop_cond s'" by blast
  from ex have "getKind (RawTok s') = tok_eof" by (simp add: loop_cond_def)
  with raw_tok_eof_iff [OF ro, of s'] ok have e: "CurRawTok s' = length ?Toks"
    by (simp add: state_ok_def)
  have "filter (\<lambda>e. in_line ?Toks i (edit_offset e)) (RB s') =
                 (if named ''warning'' (?Toks ! (i + 1)) \<or>
                     (named ''pragma'' (?Toks ! (i + 1)) \<and> named ''mark'' (?Toks ! (i + 2)))
                  then [InsertTextAfter (getFileOffset (getLocation (?Toks ! i))) ''//'']
                  else [])"
    if i: "i < length ?Toks" "is_directive (?Toks ! i)" for i
  proof -
    from i(2) have h: "getKind (?Toks ! i) = tok_hash" by (simp add: is_directive_def)
    then have "getKind (?Toks ! i) \<noteq> tok_eof" by simp
    from raw_ok_Suc_lt [OF ro i(1) this] e have "i < CurRawTok s' - 1" by simp
    with inv i have "filter (\<lambda>e. in_line ?Toks i (edit_offset e)) (RB s') = directive_edit ?Toks i"
      by (simp add: dir_inv_def)
    with directive_edit_eq [OF raw_ok_lexed [OF ro] i(1) h] show ?thesis by simp
  qed
  with s0(1) m
  show "\<exists>es. RewriteMacrosInInput I = Some (Inr es) \<and>
            (\<forall>i. i < length ?Toks \<and> is_directive (?Toks ! i) \<longrightarrow>
               filter (\<lambda>e. in_line ?Toks i (edit_offset e)) es =
                 (if named ''warning'' (?Toks ! (i + 1)) \<or>
                     (named ''pragma'' (?Toks ! (i + 1)) \<and> named ''mark'' (?Toks ! (i + 2)))
                  then [InsertTextAfter (getFileOffset (getLocation (?Toks ! i))) ''//'']
                  else []))"
    by (simp add: RewriteMacrosInInput_def)
qed

theorem directive_line_edit_witness:
  "well_formed directives_input \<and> lines_laid_out (RawTokens directives_input) \<and>
   pp_outside_directives directives_input \<and>
   lexed_ok (RawTokens directives_input) \<and>
   cursor_ok directives_input (state_after 0 directives_input) \<and>
   is_directive (RawTok (state_after 0 directives_input)) \<and>
   loop_body directives_input (state_after 0 directives_input)
     = Some (Inr (foreign_step directives_input (state_after 0 directives_input))) \<and>
   cursor_ok directives_input (state_after 1 directives_input) \<and>
   is_directive (RawTok (state_after 1 directives_input)) \<and>
   (\<exists>s'. loop_body directives_input (state_after 1 directives_input) = Some (Inr s') \<and>
      RB s' = [] \<and> PPCur s' = 2 \<and> 3 \<le> CurRawTok s' - 1 \<and> \<not> inline_tok (RawTok s')) \<and>
   cursor_ok directives_input (state_after 2 directives_input) \<and>
   is_directive (RawTok (state_after 2 directives_input)) \<and>
   (\<exists>s'. loop_body directives_input (state_after 2 directives_input) = Some (Inr s') \<and>
      RB s' = [InsertTextAfter 15 ''//''] \<and> PPCur s' = 2 \<and> 6 \<le> CurRawTok s' - 1 \<and>
      \<not> inline_tok (RawTok s')) \<and>
   (\<exists>es. RewriteMacrosInInput directives_input = Some (Inr es) \<and>
      filter (\<lambda>e. in_line (RawTokens directives_input) 0 (edit_offset e)) es = [] \<and>
      filter (\<lambda>e. in_line (RawTokens directives_input) 3 (edit_offset e)) es
        = [InsertTextAfter 15 ''//''])"
proof -
  let ?I = directives_input
  have h1: "well_formed ?I" by code_simp
  have h2: "lines_laid_out (RawTokens ?I)" by code_simp
  have h3: "pp_outside_directives ?I" by code_simp
  have h0: "lexed_ok (RawTokens ?I)" by code_simp
  note t = directive_line_edit [of ?I]
  have k0: "lexed_ok (RawTokens ?I) \<and> cursor_ok ?I (state_after 0 ?I) \<and>
            is_directive (RawTok (state_after 0 ?I))"
    by code_simp
  have k1: "lexed_ok (RawTokens ?I) \<and> cursor_ok ?I (state_after 1 ?I) \<and>
            is_directive (RawTok (state_after 1 ?I))"
    by code_simp
  have k2: "lexed_ok (RawTokens ?I) \<and> cursor_ok ?I (state_after 2 ?I) \<and>
            is_directive (RawTok (state_after 2 ?I))"
    by code_simp
  have m0: "isFromMainFile (getLocation (PPTok (state_after 0 ?I))) = False" by code_simp
  have m1: "isFromMainFile (getLocation (PPTok (state_after 1 ?I))) = True" by code_simp
  have m2: "isFromMainFile (getLocation (PPTok (state_after 2 ?I))) = True" by code_simp
  have c1: "(named ''warning'' (RawTokens ?I ! CurRawTok (state_after 1 ?I)) \<or>
             (named ''pragma'' (RawTokens ?I ! CurRawTok (state_after 1 ?I)) \<and>
              named ''mark'' (RawTokens ?I ! (CurRawTok (state_after 1 ?I) + 1)))) = False"
    by code_simp
  have c2: "(named ''warning'' (RawTokens ?I ! CurRawTok (state_after 2 ?I)) \<or>
             (named ''pragma'' (RawTokens ?I ! CurRawTok (state_after 2 ?I)) \<and>
              named ''mark'' (RawTokens ?I ! (CurRawTok (state_after 2 ?I) + 1)))) = True"
    by code_simp
  have v1: "RB (state_after 1 ?I) = []" "PPCur (state_after 1 ?I) = 2"
    "line_end (RawTokens ?I) (CurRawTok (state_after 1 ?I) - 1) = 3"
    by code_simp+
  have v2: "RB (state_after 2 ?I) = []" "PPCur (state_after 2 ?I) = 2"
    "line_end (RawTokens ?I) (CurRawTok (state_after 2 ?I) - 1) = 6"
    "getFileOffset (getLocation (RawTok (state_after 2 ?I))) = 15"
    by code_simp+
  from t [THEN conjunct1, rule_format, OF k0, unfolded m0]
  have a0: "loop_body ?I (state_after 0 ?I) = Some (Inr (foreign_step ?I (state_after 0 ?I)))"
    by simp
  from t [THEN conjunct1, rule_format, OF k1, unfolded m1 c1 v1]
  have a1: "\<exists>s'. loop_body ?I (state_after 1 ?I) = Some (Inr s') \<and>
      RB s' = [] \<and> PPCur s' = 2 \<and> 3 \<le> CurRawTok s' - 1 \<and> \<not> inline_tok (RawTok s')"
    by auto
  from t [THEN conjunct1, rule_format, OF k2, unfolded m2 c2 v2]
  have a2: "\<exists>s'. loop_body ?I (state_after 2 ?I) = Some (Inr s') \<and>
      RB s' = [InsertTextAfter 15 ''//''] \<and> PPCur s' = 2 \<and> 6 \<le> CurRawTok s' - 1 \<and>
      \<not> inline_tok (RawTok s')"
    by auto
  have d0: "0 < length (RawTokens ?I) \<and> is_directive (RawTokens ?I ! 0)" by code_simp
  have d3: "3 < length (RawTokens ?I) \<and> is_directive (RawTokens ?I ! 3)" by code_simp
  have e0: "(named ''warning'' (RawTokens ?I ! (0 + 1)) \<or>
             (named ''pragma'' (RawTokens ?I ! (0 + 1)) \<and>
              named ''mark'' (RawTokens ?I ! (0 + 2)))) = False" by code_simp
  have e3: "(named ''warning'' (RawTokens ?I ! (3 + 1)) \<or>
             (named ''pragma'' (RawTokens ?I ! (3 + 1)) \<and>
              named ''mark'' (RawTokens ?I ! (3 + 2)))) = True" by code_simp
  have o3: "getFileOffset (getLocation (RawTokens ?I ! 3)) = 15" by code_simp
  from h1 h2 h3 have h: "well_formed ?I \<and> lines_laid_out (RawTokens ?I) \<and> pp_outside_directives ?I"
    by simp
  from t [THEN conjunct2, rule_format, OF h] obtain es where es: "RewriteMacrosInInput ?I = Some (Inr es)"
    and al: "\<forall>i. i < length (RawTokens ?I) \<and> is_directive (RawTokens ?I ! i) \<longrightarrow>
               filter (\<lambda>e. in_line (RawTokens ?I) i (edit_offset e)) es =
                 (if named ''warning'' (RawTokens ?I ! (i + 1)) \<or>
                     (named ''pragma'' (RawTokens ?I ! (i + 1)) \<and>
                      named ''mark'' (RawTokens ?I ! (i + 2)))
                  then [InsertTextAfter (getFileOffset (getLocation (RawTokens ?I ! i))) ''//'']
                  else [])" by blast
  from al [rule_format, OF d0, unfolded e0]
  have f0: "filter (\<lambda>e. in_line (RawTokens ?I) 0 (edit_offset e)) es = []" by simp
  from al [rule_format, OF d3, unfolded e3 o3]
  have f3: "filter (\<lambda>e. in_line (RawTokens ?I) 3 (edit_offset e)) es = [InsertTextAfter 15 ''//'']"
    by simp
  from es f0 f3 have b: "\<exists>es. RewriteMacrosInInput ?I = Some (Inr es) \<and>
      filter (\<lambda>e. in_line (RawTokens ?I) 0 (edit_offset e)) es = [] \<and>
      filter (\<lambda>e. in_line (RawTokens ?I) 3 (edit_offset e)) es = [InsertTextAfter 15 ''//'']"
    by blast
  from h1 h2 h3 k0 a0 k1 a1 k2 a2 b show ?thesis by blast
qed

section \<open>Deletion runs\<close>

text \<open>
  C6. Every deletion run that is completed issues exactly two edits: at the offset of the
  first deleted raw token the opener, which is the three characters \<^verbatim>\<open> /*\<close> when that
  token has no leading space and the two characters \<^verbatim>\<open>/*\<close> when it has, and the
  closer \<^verbatim>\<open>*/\<close> where the run ended, which is the end of the last raw token the run went
  over.
\<close>

theorem deletion_run_two_edits:
  assumes "cursor_ok I s" and "deletion_run I s = Inr s'"
  shows "RB s' = RB s @
           [InsertTextAfter (getFileOffset (getLocation (RawTok s)))
              (if hasLeadingSpace (RawTok s) then ''/*'' else '' /*''),
            InsertTextBefore
              (token_end (RawTokens I ! (CurRawTok s - 1 +
                 length (takeWhile (deletable (PPTok s)) (drop (CurRawTok s) (RawTokens I))))))
              ''*/'']"
proof -
  from assms(1) have "0 < CurRawTok s" by (simp add: cursor_ok_def)
  then show ?thesis
    using deletion_run_char(2) [OF assms refl]
    by (simp add: comment_opener_def)
qed

theorem deletion_run_two_edits_witness:
  "cursor_ok sq_input (state_after 5 sq_input) \<and>
   deletion_run sq_input (state_after 5 sq_input)
     = Inr (projr (deletion_run sq_input (state_after 5 sq_input))) \<and>
   RB (projr (deletion_run sq_input (state_after 5 sq_input)))
     = RB (state_after 5 sq_input) @ [InsertTextAfter 10 '' /*'', InsertTextBefore 15 ''*/'']"
proof -
  let ?s = "state_after 5 sq_input"
  have h1: "cursor_ok sq_input ?s" by code_simp
  have h2: "deletion_run sq_input ?s = Inr (projr (deletion_run sq_input ?s))" by code_simp
  have v1: "getFileOffset (getLocation (RawTok ?s)) = 10" by code_simp
  have v2: "hasLeadingSpace (RawTok ?s) = False" by code_simp
  have v3: "token_end (RawTokens sq_input ! (CurRawTok ?s - 1 +
              length (takeWhile (deletable (PPTok ?s)) (drop (CurRawTok ?s) (RawTokens sq_input)))))
            = 15" by code_simp
  from deletion_run_two_edits [OF h1 h2, unfolded v1 v2 v3] h1 h2 show ?thesis by simp
qed

text \<open>
  C2, as it is stated, fails on \<^verbatim>\<open>EMPTY /*c*/ int z;\<close>: the run that deletes
  \<^verbatim>\<open>EMPTY\<close> meets the comment at offset 6 and puts its closer at offset 5, before the
  comment and not behind it.
\<close>

theorem comment_inside_deleted_span_counterexample:
  "map_sum id RB (deletion_run empty_macro_input (state_after 0 empty_macro_input))
     = Inr [InsertTextAfter 0 '' /*'', InsertTextBefore 5 ''*/''] \<and>
   getKind (RawTokens empty_macro_input ! 1) = tok_comment \<and>
   getFileOffset (getLocation (RawTokens empty_macro_input ! 1)) = 6 \<and>
   \<not> getFileOffset (getLocation (RawTokens empty_macro_input ! 1)) < 5"
  by code_simp

text \<open>
  C2, amended. If the raw token a deletion run fetches next is a comment, the run ends at
  once and the raw cursor steps over the comment: the next token is fetched with comments
  skipped from behind it. The closer \<^verbatim>\<open>*/\<close> is inserted at the end of the last token
  fetched before the comment, which is not behind the offset of the comment: the comment
  stands after the closed span, outside of it.
\<close>

theorem deletion_run_stops_before_comment:
  assumes "cursor_ok I s" and "laid_out (RawTokens I)" and "deletion_run I s = Inr s'"
    and "k = CurRawTok s +
             length (takeWhile (deletable (PPTok s)) (drop (CurRawTok s) (RawTokens I)))"
    and "getKind (RawTokens I ! k) = tok_comment"
  shows "GetNextRawTok (RawTokens I) (k + 1) False = Inr (RawTok s', CurRawTok s') \<and>
         RB s' = RB s @
           [InsertTextAfter (getFileOffset (getLocation (RawTok s)))
              (comment_opener (hasLeadingSpace (RawTok s))),
            InsertTextBefore (token_end (RawTokens I ! (k - 1))) ''*/''] \<and>
         token_end (RawTokens I ! (k - 1)) \<le> getFileOffset (getLocation (RawTokens I ! k))"
proof -
  note ch = deletion_run_char [OF assms(1,3,4)]
  from assms(1,4) have "0 < k" by (simp add: cursor_ok_def)
  with ch(1) assms(2) have
    "unat (getFileOffset (getLocation (RawTokens I ! (k - 1)))) +
       unat (getLength (RawTokens I ! (k - 1)))
     \<le> unat (getFileOffset (getLocation (RawTokens I ! k)))"
    using laid_out_nth [of "RawTokens I" "k - 1"] by simp
  then have "token_end (RawTokens I ! (k - 1)) \<le> getFileOffset (getLocation (RawTokens I ! k))"
    by (rule token_end_le)
  with ch(2) ch(5) [OF assms(5)] show ?thesis by simp
qed

theorem deletion_run_stops_before_comment_witness:
  "cursor_ok empty_macro_input (state_after 0 empty_macro_input) \<and>
   laid_out (RawTokens empty_macro_input) \<and>
   deletion_run empty_macro_input (state_after 0 empty_macro_input)
     = Inr (projr (deletion_run empty_macro_input (state_after 0 empty_macro_input))) \<and>
   getKind (RawTokens empty_macro_input ! 1) = tok_comment \<and>
   RB (projr (deletion_run empty_macro_input (state_after 0 empty_macro_input)))
     = [InsertTextAfter 0 '' /*'', InsertTextBefore 5 ''*/''] \<and>
   (5 :: 32 word) \<le> 6"
proof -
  let ?I = "empty_macro_input"
  let ?s = "state_after 0 ?I"
  have h1: "cursor_ok ?I ?s" by code_simp
  have h2: "laid_out (RawTokens ?I)" by code_simp
  have h3: "deletion_run ?I ?s = Inr (projr (deletion_run ?I ?s))" by code_simp
  have h4: "1 = CurRawTok ?s +
      length (takeWhile (deletable (PPTok ?s)) (drop (CurRawTok ?s) (RawTokens ?I)))"
    by code_simp
  have h5: "getKind (RawTokens ?I ! 1) = tok_comment" by code_simp
  have v1: "RB ?s = []" by code_simp
  have v2: "getFileOffset (getLocation (RawTok ?s)) = 0" by code_simp
  have v3: "comment_opener (hasLeadingSpace (RawTok ?s)) = '' /*''" by code_simp
  have v4: "token_end (RawTokens ?I ! (1 - 1)) = 5" by code_simp
  have v5: "getFileOffset (getLocation (RawTokens ?I ! 1)) = 6" by code_simp
  from deletion_run_stops_before_comment [OF h1 h2 h3 h4 h5, unfolded v1 v2 v3 v4 v5]
    h1 h2 h3 h5
  show ?thesis by simp
qed

section \<open>Insertion runs\<close>

text \<open>
  C1, as it is stated, fails on \<^verbatim>\<open>int y = SQ(3+1);\<close>: when the raw cursor is on the
  parenthesis at offset 10 and the preprocessor on the first token of the expansion, at offset
  8, the text of the expansion is inserted at offset 8, not at the offset of the raw token.
\<close>

theorem insertion_at_raw_offset_counterexample:
  "getFileOffset (getLocation (PPTok (state_after 4 sq_input))) = 8 \<and>
   getFileOffset (getLocation (RawTok (state_after 4 sq_input))) = 10 \<and>
   map_option (map_sum id RB) (loop_body sq_input (state_after 4 sq_input))
     = Some (Inr [InsertTextAfter 8 ''/*'', InsertTextBefore 10 ''*/'',
                  InsertTextBefore 8 '' ( ( 3 + 1 ) * ( 3 + 1 ) ) '']) \<and>
   map_option (map_sum id RB) (loop_body sq_input (state_after 4 sq_input))
     \<noteq> Some (Inr [InsertTextAfter 8 ''/*'', InsertTextBefore 10 ''*/'',
                  InsertTextBefore 10 '' ( ( 3 + 1 ) * ( 3 + 1 ) ) ''])"
  by code_simp

text \<open>
  C1, amended. In an iteration whose preprocessed token is from the main file and whose raw
  token is not the \<^verbatim>\<open>#\<close> of a directive, if the offset of the raw token is strictly
  greater than the offset of the preprocessed token, and some token still to come from the
  preprocessor (its terminal token included) is not below the raw offset, there is one
  insertion run: for the current preprocessed token and each following one whose offset stays
  below the raw offset, a space and its spelling are collected, then one space, and the
  whole text is issued as one edit, inserted before the offset the preprocessed token had
  when the run began, which is strictly less than the raw offset. The preprocessor is left on
  the first token that is not below the raw offset; the raw token and the raw cursor are
  unchanged.
\<close>

theorem insertion_run_single_edit:
  assumes "isFromMainFile (getLocation (PPTok s))"
    and "\<not> (getKind (RawTok s) = tok_hash \<and> isAtStartOfLine (RawTok s))"
    and "getFileOffset (getLocation (PPTok s)) < getFileOffset (getLocation (RawTok s))"
    and "\<not> (\<forall>t \<in> set (drop (PPCur s) (PPTokens I) @ [PPEof I]).
             getFileOffset (getLocation t) < getFileOffset (getLocation (RawTok s)))"
    and "run = takeWhile (\<lambda>t. getFileOffset (getLocation t) < getFileOffset (getLocation (RawTok s)))
                 (PPTok s # drop (PPCur s) (PPTokens I))"
  shows "loop_body I s =
           Some (Inr (s\<lparr>PPTok := fst (Lex I (PPCur s + length run - 1)),
                         PPCur := PPCur s + length run,
                         RB := RB s @
                           [InsertTextBefore (getFileOffset (getLocation (PPTok s)))
                              (concat (map (\<lambda>t. CHR '' '' # getSpelling t) run) @ '' '')]\<rparr>))"
proof -
  let ?R = "getFileOffset (getLocation (RawTok s))"
  have b: "below ?R = (\<lambda>t. getFileOffset (getLocation t) < ?R)"
    by (simp add: below_def fun_eq_iff)
  from assms(3) have bT: "below ?R (PPTok s)" by (simp add: below_def)
  from assms(4) have ex: "\<not> (\<forall>t \<in> set (drop (PPCur s) (PPTokens I) @ [PPEof I]). below ?R t)"
    unfolding b .
  from assms(3) have ne: "getFileOffset (getLocation (PPTok s)) \<noteq> ?R"
    and nle: "\<not> ?R \<le> getFileOffset (getLocation (PPTok s))" by auto
  have run: "run = PPTok s # takeWhile (below ?R) (drop (PPCur s) (PPTokens I))"
    using assms(5) bT unfolding b[symmetric] by simp
  from assms(2) have nd: "(getKind (RawTok s) = tok_hash \<and> isAtStartOfLine (RawTok s)) = False"
    by simp
  show ?thesis
    using assms(1) ne nle bT
    by (simp add: nd loop_body_def insertion_run_def Let_def ins_loop_char [OF ex refl]
        run expansion_text_def)
qed

theorem insertion_run_single_edit_witness:
  "isFromMainFile (getLocation (PPTok (state_after 4 sq_input))) \<and>
   getFileOffset (getLocation (PPTok (state_after 4 sq_input)))
     < getFileOffset (getLocation (RawTok (state_after 4 sq_input))) \<and>
   loop_body sq_input (state_after 4 sq_input) =
     Some (Inr ((state_after 4 sq_input)
       \<lparr>PPTok := PPTokens sq_input ! 16, PPCur := 17,
        RB := RB (state_after 4 sq_input) @
                [InsertTextBefore 8 '' ( ( 3 + 1 ) * ( 3 + 1 ) ) '']\<rparr>))"
proof -
  let ?I = "sq_input"
  let ?s = "state_after 4 ?I"
  let ?R = "getFileOffset (getLocation (RawTok ?s))"
  let ?run = "takeWhile (\<lambda>t. getFileOffset (getLocation t) < ?R)
                (PPTok ?s # drop (PPCur ?s) (PPTokens ?I))"
  have h1: "isFromMainFile (getLocation (PPTok ?s))" by code_simp
  have h2: "\<not> (getKind (RawTok ?s) = tok_hash \<and> isAtStartOfLine (RawTok ?s))" by code_simp
  have h3: "getFileOffset (getLocation (PPTok ?s)) < ?R" by code_simp
  have h4: "\<not> (\<forall>t \<in> set (drop (PPCur ?s) (PPTokens ?I) @ [PPEof ?I]).
               getFileOffset (getLocation t) < ?R)" by code_simp
  have v1: "fst (Lex ?I 16) = PPTokens ?I ! 16" by code_simp
  have v2: "PPCur ?s + length ?run = 17" by code_simp
  have v3: "concat (map (\<lambda>t. CHR '' '' # getSpelling t) ?run) @ '' ''
              = '' ( ( 3 + 1 ) * ( 3 + 1 ) ) ''" by code_simp
  have v4: "getFileOffset (getLocation (PPTok ?s)) = 8" by code_simp
  from insertion_run_single_edit [OF h1 h2 h3 h4 refl, unfolded v2 v3] h1 h3
  show ?thesis unfolding v4 by (simp add: v1)
qed

section \<open>Termination and the raw cursor's bound\<close>

text \<open>
  C8. The main loop terminates: on token streams as the lexer and the preprocessor give
  them (the raw tokens ending with their only end-of-file token, at the end of the file, the
  preprocessor ending with an end-of-file token of the main file at that same offset) the
  loop is left, without a fault, with both current tokens at end of file. On every input
  whatsoever, an iteration that is completed moves neither cursor backward and moves at least
  one of them forward, the loop is left only with both current tokens at end of file, and
  it is left at once when both are.
\<close>

theorem main_loop_terminates:
  "(well_formed I \<longrightarrow>
      (\<exists>s0 s'. init_state I = Inr s0 \<and> main_loop I s0 = Some (Inr s') \<and>
         getKind (RawTok s') = tok_eof \<and> getKind (PPTok s') = tok_eof)) \<and>
   (\<forall>s t. loop_body I s = Some (Inr t) \<longrightarrow>
      CurRawTok s \<le> CurRawTok t \<and> PPCur s \<le> PPCur t \<and>
      (CurRawTok s < CurRawTok t \<or> PPCur s < PPCur t)) \<and>
   (\<forall>s t. main_loop I s = Some (Inr t) \<longrightarrow>
      getKind (RawTok t) = tok_eof \<and> getKind (PPTok t) = tok_eof) \<and>
   (\<forall>s. getKind (RawTok s) = tok_eof \<and> getKind (PPTok s) = tok_eof \<longrightarrow>
      main_loop I s = Some (Inr s))"
proof (intro conjI allI impI)
  assume "well_formed I"
  from run_completes [OF this]
  show "\<exists>s0 s'. init_state I = Inr s0 \<and> main_loop I s0 = Some (Inr s') \<and>
            getKind (RawTok s') = tok_eof \<and> getKind (PPTok s') = tok_eof"
    by (auto simp: loop_cond_def)
next
  fix s t
  assume "loop_body I s = Some (Inr t)"
  from loop_body_advances [OF this]
  show "CurRawTok s \<le> CurRawTok t" "PPCur s \<le> PPCur t"
    "CurRawTok s < CurRawTok t \<or> PPCur s < PPCur t" by simp_all
next
  fix s t
  assume "main_loop I s = Some (Inr t)"
  from main_loop_exit [OF this]
  show "getKind (RawTok t) = tok_eof" "getKind (PPTok t) = tok_eof"
    by (simp_all add: loop_cond_def)
next
  fix s :: state
  assume "getKind (RawTok s) = tok_eof \<and> getKind (PPTok s) = tok_eof"
  then show "main_loop I s = Some (Inr s)"
    by (subst main_loop.simps) (simp add: loop_cond_def)
qed

theorem main_loop_terminates_witness:
  "well_formed sq_input \<and>
   (\<exists>s0 s'. init_state sq_input = Inr s0 \<and> main_loop sq_input s0 = Some (Inr s') \<and>
      getKind (RawTok s') = tok_eof \<and> getKind (PPTok s') = tok_eof) \<and>
   loop_body sq_input (state_after 4 sq_input) = Some (Inr (state_after 5 sq_input)) \<and>
   CurRawTok (state_after 4 sq_input) \<le> CurRawTok (state_after 5 sq_input) \<and>
   PPCur (state_after 4 sq_input) < PPCur (state_after 5 sq_input) \<and>
   main_loop sq_input (state_after 7 sq_input) = Some (Inr (state_after 7 sq_input)) \<and>
   getKind (RawTok (state_after 7 sq_input)) = tok_eof \<and>
   getKind (PPTok (state_after 7 sq_input)) = tok_eof"
proof -
  have h: "well_formed sq_input" by code_simp
  have b: "loop_body sq_input (state_after 4 sq_input) = Some (Inr (state_after 5 sq_input))"
    by code_simp
  have c: "CurRawTok (state_after 5 sq_input) = CurRawTok (state_after 4 sq_input)"
    by code_simp
  have e: "getKind (RawTok (state_after 7 sq_input)) = tok_eof \<and>
           getKind (PPTok (state_after 7 sq_input)) = tok_eof" by code_simp
  note t = main_loop_terminates [of sq_input]
  from t [THEN conjunct2, THEN conjunct1, rule_format, OF b] c
  have a: "CurRawTok (state_after 4 sq_input) \<le> CurRawTok (state_after 5 sq_input)"
    "PPCur (state_after 4 sq_input) < PPCur (state_after 5 sq_input)" by simp_all
  from t [THEN conjunct2, THEN conjunct2, THEN conjunct2, rule_format, OF e]
  have m: "main_loop sq_input (state_after 7 sq_input) = Some (Inr (state_after 7 sq_input))" .
  from t [THEN conjunct2, THEN conjunct2, THEN conjunct1, rule_format, OF m]
  have f: "getKind (RawTok (state_after 7 sq_input)) = tok_eof"
    "getKind (PPTok (state_after 7 sq_input)) = tok_eof" by simp_all
  from t [THEN conjunct1, rule_format, OF h] h b a m f show ?thesis by simp
qed

text \<open>
  C9. Given that the raw token list ends with its end-of-file token, as
  \<^verbatim>\<open>LexRawTokensFromMainFile\<close> and the raw lexer give it, and with the preprocessor's
  stream being one of that same file (it ends with the end-of-file token of the main file,
  at the offset of the raw one, and its main-file tokens lie before it), the pass is
  completed without a fault: every call of \<^verbatim>\<open>GetNextRawTok\<close>, the ones of the deletion
  run and of the directive line included, finds the cursor inside the list, so neither the
  assertion fails nor the vector is read past its end.
\<close>

theorem no_overrun:
  assumes "well_formed I"
  shows "\<exists>es. RewriteMacrosInInput I = Some (Inr es)"
proof -
  from run_completes [OF assms] obtain s0 s'
    where "init_state I = Inr s0" "main_loop I s0 = Some (Inr s')" by blast
  then show ?thesis by (simp add: RewriteMacrosInInput_def)
qed

theorem no_overrun_witness:
  "well_formed empty_macro_input \<and>
   (\<exists>es. RewriteMacrosInInput empty_macro_input = Some (Inr es))"
proof -
  have h: "well_formed empty_macro_input" by code_simp
  from no_overrun [OF h] h show ?thesis by simp
qed

section \<open>The order of the edits\<close>

text \<open>
  C4, as it is stated, fails on \<^verbatim>\<open>int y = SQ(3+1);\<close>, an input as the lexer and the
  preprocessor give it: the closer of the run that deletes \<^verbatim>\<open>SQ\<close> is issued at offset
  10, and the expansion after it at offset 8.
\<close>

theorem edit_offsets_monotone_counterexample:
  "well_formed sq_input \<and> laid_out (RawTokens sq_input) \<and>
   RewriteMacrosInInput sq_input =
     Some (Inr [InsertTextAfter 8 ''/*'', InsertTextBefore 10 ''*/'',
                InsertTextBefore 8 '' ( ( 3 + 1 ) * ( 3 + 1 ) ) '',
                InsertTextAfter 10 '' /*'', InsertTextBefore 15 ''*/'']) \<and>
   \<not> sorted (map edit_offset
        [InsertTextAfter 8 ''/*'', InsertTextBefore 10 ''*/'',
         InsertTextBefore 8 '' ( ( 3 + 1 ) * ( 3 + 1 ) ) '',
         InsertTextAfter 10 '' /*'', InsertTextBefore 15 ''*/''])"
  by code_simp

text \<open>
  C4, amended. For every run over token streams as the lexer and the preprocessor give
  them, the raw tokens lying in the order of the file without reaching into one another, the
  offsets of the edits issued at raw tokens (the \<^verbatim>\<open>//\<close> of directive lines, the openers
  and the closers of deletion runs) are non-decreasing in the order of emission. The edit of
  an insertion run is left out: it is issued at the offset of the preprocessed token, which
  can lie before an edit issued earlier.
\<close>

theorem raw_side_edits_monotone:
  assumes "well_formed I" and "laid_out (RawTokens I)"
  shows "\<exists>es. RewriteMacrosInInput I = Some (Inr es) \<and>
              sorted (map edit_offset (filter from_raw_side es))"
proof -
  from assms(1) have "raw_ok (RawTokens I)" by (simp add: well_formed_def)
  from init_state_ok [OF this] obtain s0 where s0: "init_state I = Inr s0" "state_ok I s0"
    "RB s0 = []" by blast
  then have i0: "state_ok I s0 \<and> mono_inv s0" by (simp add: mono_inv_def raw_side_offsets_def)
  have step: "\<exists>s'. loop_body I s = Some (Inr s') \<and> (state_ok I s' \<and> mono_inv s') \<and>
                remaining I s' < remaining I s"
    if "state_ok I s \<and> mono_inv s" "loop_cond s" for s
  proof -
    from that loop_body_step [OF assms(1), of s] obtain s' where
      b: "loop_body I s = Some (Inr s')" "state_ok I s'" "remaining I s' < remaining I s" by blast
    from mono_step [OF assms _ that(2) b(1)] that(1) have "mono_inv s'" by simp
    with b show ?thesis by blast
  qed
  from main_loop_rule [of "\<lambda>s. state_ok I s \<and> mono_inv s", OF i0 step]
  obtain s' where "main_loop I s0 = Some (Inr s')" "mono_inv s'" by blast
  with s0(1) show ?thesis
    by (auto simp: RewriteMacrosInInput_def mono_inv_def raw_side_offsets_def)
qed

theorem raw_side_edits_monotone_witness:
  "well_formed sq_input \<and> laid_out (RawTokens sq_input) \<and>
   (\<exists>es. RewriteMacrosInInput sq_input = Some (Inr es) \<and>
         sorted (map edit_offset (filter from_raw_side es)))"
proof -
  have h1: "well_formed sq_input" by code_simp
  have h2: "laid_out (RawTokens sq_input)" by code_simp
  from raw_side_edits_monotone [OF h1 h2] h1 h2 show ?thesis by simp
qed

section \<open>Files without macro invocations\<close>


text \<open>
  Three more files without macro invocations that get edits. In the first one the test of
  lines 129 to 137 takes the identifier \<^verbatim>\<open>warning\<close>, with which the next line begins,
  for the name of the directive. The other two show line 52, which steps over one comment
  only, and over its flags with it: the second of two comment lines is bracketed like a
  deleted token, and where a comment starts the line behind a directive line, the rest of
  that line is skipped with the directive line and then inserted like an expansion.
\<close>

lemma lone_hash_edited:
  "well_formed lone_hash_input \<and> no_macros lone_hash_input \<and>
   no_adjacent_comments (RawTokens lone_hash_input) \<and>
   lone_comment_after_directive (RawTokens lone_hash_input) \<and>
   RewriteMacrosInInput lone_hash_input = Some (Inr [InsertTextAfter 0 ''//''])"
  by code_simp

lemma two_comment_lines_edited:
  "well_formed two_comments_input \<and> no_macros two_comments_input \<and>
   never_commented_out (RawTokens two_comments_input) \<and>
   lone_comment_after_directive (RawTokens two_comments_input) \<and>
   RewriteMacrosInInput two_comments_input =
     Some (Inr [InsertTextAfter 5 '' /*'', InsertTextBefore 9 ''*/''])"
  by code_simp

lemma comment_after_directive_edited:
  "well_formed comment_after_directive_input \<and> no_macros comment_after_directive_input \<and>
   never_commented_out (RawTokens comment_after_directive_input) \<and>
   no_adjacent_comments (RawTokens comment_after_directive_input) \<and>
   RewriteMacrosInInput comment_after_directive_input =
     Some (Inr [InsertTextBefore 23 '' int x ; ''])"
  by code_simp



end
